theory Spec2Isabelle
  imports Complex_Main "HOL-Library.Word" "HOL-Library.Monad_Syntax"
begin

unbundle bit_operations_syntax

section \<open>Memory model\<close>

text \<open>
  The demodulator works on C arrays of 8-bit soft symbols. An array is a list of bytes
  and a pointer into it is the list together with an \<open>int\<close> index. C's \<open>int\<close> is
  modelled as the unbounded \<open>int\<close>: every index the code computes is bounded by the
  buffer length plus a small constant, so signed overflow does not occur for buffers
  of less than two gigabytes. An access outside the array (undefined behaviour in C) is
  the fault \<open>None\<close>; a run without fault returns \<open>Some\<close>.
\<close>

type_synonym u8 = "8 word"

text \<open>\<open>int8_t\<close> has the same bits as \<open>uint8_t\<close>; its value is read with \<open>sint\<close>.\<close>

type_synonym s8 = "8 word"

definition read_u8 :: "u8 list \<Rightarrow> int \<Rightarrow> u8 option" where
  "read_u8 buf p = (if 0 \<le> p \<and> p < int (length buf) then Some (buf ! nat p) else None)"

text \<open>\<open>memcpy(&dst[d], &src[s], n)\<close> between two distinct arrays.\<close>

definition memcpy_u8 :: "u8 list \<Rightarrow> int \<Rightarrow> u8 list \<Rightarrow> int \<Rightarrow> nat \<Rightarrow> u8 list option" where
  "memcpy_u8 dst d src s n =
     (if 0 \<le> d \<and> d + int n \<le> int (length dst) \<and> 0 \<le> s \<and> s + int n \<le> int (length src)
      then Some (take (nat d) dst @ take n (drop (nat s) src) @ drop (nat d + n) dst)
      else None)"

section \<open>Sync locator\<close>

text \<open>
  \<open>Byte_at_Offset(data)\<close> with \<open>data = &buf[p]\<close>: the loop over \<open>i = 0..7\<close> reads
  \<open>data[i]\<close>, thresholds it at 128 and ors \<open>test << i\<close> into \<open>result\<close>.
\<close>

function Byte_at_Offset_loop :: "u8 list \<Rightarrow> int \<Rightarrow> nat \<Rightarrow> u8 \<Rightarrow> u8 option" where
  "Byte_at_Offset_loop buf p i result =
     (if i < 8 then do {
        d \<leftarrow> read_u8 buf (p + int i);
        let test = (if d < 128 then 1 else 0 :: u8);
        Byte_at_Offset_loop buf p (i + 1) (result OR push_bit i test)
      } else Some result)"
  by pat_completeness auto
termination
  by (relation "measure (\<lambda>(buf, p, i, result). 8 - i)") auto

declare Byte_at_Offset_loop.simps [simp del]

definition Byte_at_Offset :: "u8 list \<Rightarrow> int \<Rightarrow> u8 option" where
  "Byte_at_Offset buf p = Byte_at_Offset_loop buf p 0 0"

text \<open>
  The inner loop of \<open>Find_Sync\<close>, \<open>for (j = 1; j <= depth; j++)\<close>: it leaves with
  \<open>result = false\<close> at the first mismatch and with \<open>result = true\<close> otherwise.
\<close>

function Find_Sync_ahead ::
  "u8 list \<Rightarrow> int \<Rightarrow> int \<Rightarrow> int \<Rightarrow> int \<Rightarrow> u8 \<Rightarrow> int \<Rightarrow> bool option" where
  "Find_Sync_ahead buf p i step depth sync j =
     (if j \<le> depth then do {
        test \<leftarrow> Byte_at_Offset buf (p + (i + j * step));
        if sync \<noteq> test then Some False
        else Find_Sync_ahead buf p i step depth sync (j + 1)
      } else Some True)"
  by pat_completeness auto
termination
  by (relation "measure (\<lambda>(buf, p, i, step, depth, sync, j). nat (depth + 1 - j))") auto

declare Find_Sync_ahead.simps [simp del]

text \<open>
  The outer loop, \<open>for (i = 0; i < limit; i++)\<close>. The result is the triple
  \<open>(result, *offset, *sync)\<close>; \<open>*offset\<close> was set to 0 before the loop and is assigned
  only on success, \<open>*sync\<close> is overwritten by every iteration.
\<close>

function Find_Sync_scan ::
  "u8 list \<Rightarrow> int \<Rightarrow> int \<Rightarrow> int \<Rightarrow> int \<Rightarrow> int \<Rightarrow> u8 \<Rightarrow> (bool \<times> int \<times> u8) option" where
  "Find_Sync_scan buf p limit step depth i sync =
     (if i < limit then do {
        sync' \<leftarrow> Byte_at_Offset buf (p + i);
        result \<leftarrow> Find_Sync_ahead buf p i step depth sync' 1;
        if result then Some (True, i, sync')
        else Find_Sync_scan buf p limit step depth (i + 1) sync'
      } else Some (False, 0, sync))"
  by pat_completeness auto
termination
  by (relation "measure (\<lambda>(buf, p, limit, step, depth, i, sync). nat (limit - i))") auto

declare Find_Sync_scan.simps [simp del]

text \<open>
  \<open>Find_Sync(&buf[p], block_siz, step, depth, &offset, &sync)\<close>; the last argument is
  the value \<open>*sync\<close> holds on entry.
\<close>

definition Find_Sync ::
  "u8 list \<Rightarrow> int \<Rightarrow> int \<Rightarrow> int \<Rightarrow> int \<Rightarrow> u8 \<Rightarrow> (bool \<times> int \<times> u8) option" where
  "Find_Sync buf p block_siz step depth sync =
     Find_Sync_scan buf p (block_siz - step * depth) step depth 0 sync"

section \<open>Stream resynchronizer\<close>

text \<open>
  The variables of \<open>Resync_Stream\<close> that live across loop iterations: the read cursor
  \<open>posn\<close>, the acquired \<open>sync\<close> byte (field \<open>sync_byte\<close>), the caller's buffer \<open>raw_buf\<close> (written in
  place) and the count \<open>*resync_siz\<close>. The private copy \<open>src_buf\<close> is never written
  and is passed as \<open>src\<close>; \<open>offset\<close>, \<open>test\<close>, \<open>ok\<close> and \<open>tmp\<close> are assigned
  before every use and stay local.
\<close>

record resync_state =
  posn :: int
  sync_byte :: u8
  raw_buf :: "u8 list"
  resync_siz :: int

text \<open>
  The look-ahead \<open>for (i = 0; i < 128; i++)\<close> of the tracking loop: \<open>ok\<close> becomes true
  at the first position \<open>posn + i * 80\<close> below \<open>limit2\<close> whose byte equals \<open>sync\<close>.
\<close>

function Resync_look_ahead :: "u8 list \<Rightarrow> int \<Rightarrow> int \<Rightarrow> u8 \<Rightarrow> int \<Rightarrow> bool option" where
  "Resync_look_ahead src limit2 pos sync i =
     (if i < 128 then
        (let tmp = pos + i * 80 in
         if tmp < limit2 then do {
           test \<leftarrow> Byte_at_Offset src tmp;
           if sync = test then Some True
           else Resync_look_ahead src limit2 pos sync (i + 1)
         } else Resync_look_ahead src limit2 pos sync (i + 1))
      else Some False)"
  by pat_completeness auto
termination
  by (relation "measure (\<lambda>(src, limit2, pos, sync, i). nat (128 - i))") auto

declare Resync_look_ahead.simps [simp del]

text \<open>
  The tracking loop \<open>while (posn < limit2)\<close> with \<open>limit2 = raw_siz - 80\<close>: it is left
  by \<open>break\<close> when the look-ahead fails, and otherwise copies the 72 data symbols
  behind the sync word into the caller's buffer and advances by one frame.
\<close>

function Resync_track :: "u8 list \<Rightarrow> int \<Rightarrow> resync_state \<Rightarrow> resync_state option" where
  "Resync_track src raw_siz s =
     (if posn s < raw_siz - 80 then do {
        ok \<leftarrow> Resync_look_ahead src (raw_siz - 80) (posn s) (sync_byte s) 0;
        if \<not> ok then Some s
        else do {
          buf' \<leftarrow> memcpy_u8 (raw_buf s) (resync_siz s) src (posn s + 8) 72;
          Resync_track src raw_siz
            (s\<lparr>raw_buf := buf', resync_siz := resync_siz s + 72, posn := posn s + 80\<rparr>)
        }
      } else Some s)"
  by pat_completeness auto
termination
  by (relation "measure (\<lambda>(src, raw_siz, s). nat (raw_siz - 80 - posn s))") auto

declare Resync_track.simps [simp del]

text \<open>
  The facts behind the termination of the acquisition loop: a successful search
  reports an offset whose byte is the reported sync byte, so the first look-ahead of
  the tracking loop succeeds at once and the cursor moves on by at least one frame.
\<close>

lemma Find_Sync_scan_found:
  "Find_Sync_scan buf p limit step depth i sy0 = Some (True, off, sy) \<Longrightarrow>
     i \<le> off \<and> off < limit \<and> Byte_at_Offset buf (p + off) = Some sy"
proof (induction buf p limit step depth i sy0 rule: Find_Sync_scan.induct)
  case (1 buf p limit step depth i sync)
  show ?case
  proof (cases "i < limit")
    case False
    with "1.prems" show ?thesis by (subst (asm) Find_Sync_scan.simps) simp
  next
    case True
    from True "1.prems" obtain sy' r where
      b: "Byte_at_Offset buf (p + i) = Some sy'" and
      a: "Find_Sync_ahead buf p i step depth sy' 1 = Some r" and
      c: "(if r then Some (True, i, sy') else Find_Sync_scan buf p limit step depth (i + 1) sy')
            = Some (True, off, sy)"
      by (subst (asm) Find_Sync_scan.simps) (auto simp: bind_eq_Some_conv)
    show ?thesis
    proof (cases r)
      case True
      with c b \<open>i < limit\<close> show ?thesis by simp
    next
      case False
      with c have "Find_Sync_scan buf p limit step depth (i + 1) sy' = Some (True, off, sy)"
        by simp
      from "1.IH"[OF \<open>i < limit\<close> b a _ this] False show ?thesis by simp
    qed
  qed
qed

lemma Resync_track_posn:
  "Resync_track src raw_siz s = Some s' \<Longrightarrow> posn s \<le> posn s'"
proof (induction src raw_siz s rule: Resync_track.induct)
  case (1 src raw_siz s)
  show ?case
  proof (cases "posn s < raw_siz - 80")
    case False
    with "1.prems" show ?thesis by (subst (asm) Resync_track.simps) simp
  next
    case True
    from True "1.prems" obtain ok where
      l: "Resync_look_ahead src (raw_siz - 80) (posn s) (sync_byte s) 0 = Some ok"
      by (subst (asm) Resync_track.simps) (auto simp: bind_eq_Some_conv)
    show ?thesis
    proof (cases ok)
      case False
      with True l "1.prems" show ?thesis
        by (subst (asm) Resync_track.simps) simp
    next
      case ok: True
      with True l "1.prems" obtain buf' where
        m: "memcpy_u8 (raw_buf s) (resync_siz s) src (posn s + 8) 72 = Some buf'" and
        r: "Resync_track src raw_siz
              (s\<lparr>raw_buf := buf', resync_siz := resync_siz s + 72, posn := posn s + 80\<rparr>) = Some s'"
        by (subst (asm) Resync_track.simps) (auto simp: bind_eq_Some_conv)
      from "1.IH"[OF True l _ m r] ok show ?thesis by simp
    qed
  qed
qed

lemma Resync_track_advance:
  assumes "Resync_track src raw_siz s = Some s'" "posn s < raw_siz - 80"
    "Byte_at_Offset src (posn s) = Some (sync_byte s)"
  shows "posn s + 80 \<le> posn s'"
proof -
  have l: "Resync_look_ahead src (raw_siz - 80) (posn s) (sync_byte s) 0 = Some True"
    using assms(2,3) by (subst Resync_look_ahead.simps) simp
  with assms(1,2) obtain buf' where
    r: "Resync_track src raw_siz
          (s\<lparr>raw_buf := buf', resync_siz := resync_siz s + 72, posn := posn s + 80\<rparr>) = Some s'"
    by (subst (asm) Resync_track.simps) (auto simp: bind_eq_Some_conv)
  from Resync_track_posn[OF r] show ?thesis by simp
qed

lemma Resync_acquire_progress:
  assumes a: "posn s < raw_siz - 320"
    and f: "Find_Sync src (posn s) 400 80 4 (sync_byte s) = Some (True, off, sy)"
    and t: "Resync_track src raw_siz (s\<lparr>posn := posn s + off, sync_byte := sy\<rparr>) = Some s'"
  shows "posn s + 80 \<le> posn s'"
proof -
  from f have "Find_Sync_scan src (posn s) 80 80 4 0 (sync_byte s) = Some (True, off, sy)"
    by (simp add: Find_Sync_def)
  from Find_Sync_scan_found[OF this]
  have o: "0 \<le> off" "off < 80" and b: "Byte_at_Offset src (posn s + off) = Some sy" by auto
  let ?s = "s\<lparr>posn := posn s + off, sync_byte := sy\<rparr>"
  have "posn ?s + 80 \<le> posn s'"
    by (rule Resync_track_advance[OF t]) (use a o b in auto)
  with o show ?thesis by simp
qed

text \<open>
  The acquisition loop \<open>while (posn < limit1)\<close> with \<open>limit1 = raw_siz - 320\<close>. A failed
  search advances the cursor by 240 (\<open>continue\<close>); a successful one adds the offset
  and enters the tracking loop.
\<close>

function Resync_acquire :: "u8 list \<Rightarrow> int \<Rightarrow> resync_state \<Rightarrow> resync_state option" where
  "Resync_acquire src raw_siz s =
     (if posn s < raw_siz - 320 then do {
        (found, off, sy) \<leftarrow> Find_Sync src (posn s) 400 80 4 (sync_byte s);
        if \<not> found then Resync_acquire src raw_siz (s\<lparr>posn := posn s + 240, sync_byte := sy\<rparr>)
        else do {
          s' \<leftarrow> Resync_track src raw_siz (s\<lparr>posn := posn s + off, sync_byte := sy\<rparr>);
          Resync_acquire src raw_siz s'
        }
      } else Some s)"
  by pat_completeness auto
termination
proof (relation "measure (\<lambda>(src, raw_siz, s). nat (raw_siz - 320 - posn s))", goal_cases)
  case 1
  show ?case by simp
next
  case 2
  then show ?case by simp
next
  case (3 src raw_siz s x found y off sy s')
  then have f: "Find_Sync src (posn s) 400 80 4 (sync_byte s) = Some (True, off, sy)"
    and t: "Resync_track src raw_siz (s\<lparr>posn := posn s + off, sync_byte := sy\<rparr>) = Some s'"
    by (cases x; auto)+
  from Resync_acquire_progress[OF 3(1) f t] 3(1) show ?case by simp
qed

declare Resync_acquire.simps [simp del]

text \<open>
  \<open>Resync_Stream(raw_buf, raw_siz, &resync_siz)\<close> on a buffer of \<open>raw_siz\<close> symbols:
  \<open>src_buf\<close> is a copy of the buffer taken before the loops. The result is the
  caller's buffer after the call and \<open>*resync_siz\<close>.
\<close>

definition Resync_Stream :: "u8 list \<Rightarrow> (u8 list \<times> int) option" where
  "Resync_Stream raw = do {
     s \<leftarrow> Resync_acquire raw (int (length raw))
            \<lparr>posn = 0, sync_byte = 0, raw_buf = raw, resync_siz = 0\<rparr>;
     Some (raw_buf s, resync_siz s)
   }"

section \<open>Convolutional de-interleaver\<close>

text \<open>
  What \<open>De_Interleave\<close> leaves behind: the caller's raw buffer (compacted in place by
  \<open>Resync_Stream\<close>), the buffer \<open>*resync\<close> points to, \<open>*resync_siz\<close>, and the message
  handed to \<open>Show_Message\<close>, if any.
\<close>

record deinterleave_result =
  di_raw :: "u8 list"
  di_resync :: "u8 list option"
  di_resync_siz :: int
  di_message :: "(string \<times> string) option"

text \<open>A store \<open>p[i] = v\<close> through a pointer that may point to no buffer.\<close>

definition write_ptr :: "u8 list option \<Rightarrow> int \<Rightarrow> u8 \<Rightarrow> u8 list option option" where
  "write_ptr p i v =
     (case p of
        None \<Rightarrow> None
      | Some buf \<Rightarrow> if 0 \<le> i \<and> i < int (length buf) then Some (Some (buf[nat i := v])) else None)"

text \<open>
  The loop \<open>for (resync_buf_idx = 0; resync_buf_idx < *resync_siz; resync_buf_idx++)\<close>.
  On the indices the loop meets, which are not negative, C's \<open>%\<close> is \<open>mod\<close>.
\<close>

function De_Interleave_loop ::
  "u8 list \<Rightarrow> int \<Rightarrow> int \<Rightarrow> u8 list option \<Rightarrow> u8 list option option" where
  "De_Interleave_loop raw siz resync_buf_idx resync =
     (if resync_buf_idx < siz then
        (let raw_buf_idx = resync_buf_idx + (resync_buf_idx mod 36) * 73728 in
         if raw_buf_idx < siz then do {
           v \<leftarrow> read_u8 raw raw_buf_idx;
           resync' \<leftarrow> write_ptr resync resync_buf_idx v;
           De_Interleave_loop raw siz (resync_buf_idx + 1) resync'
         } else De_Interleave_loop raw siz (resync_buf_idx + 1) resync)
      else Some resync)"
  by pat_completeness auto
termination
  by (relation "measure (\<lambda>(raw, siz, resync_buf_idx, resync). nat (siz - resync_buf_idx))") auto

declare De_Interleave_loop.simps [simp del]

text \<open>
  \<open>mem_alloc\<close> is declared in \<open>utils.h\<close> and defined outside this file. It is taken to
  return a block of the requested size whose initial bytes are given by the parameter
  \<open>fresh\<close> (\<open>\<lambda>_. 0\<close> for an allocator that clears the block). \<open>resync0\<close> is the buffer
  \<open>*resync\<close> points to on entry (\<open>None\<close> when it points to none); it stays in place
  when \<open>mem_alloc\<close> is not called.
\<close>

definition De_Interleave ::
  "(nat \<Rightarrow> u8) \<Rightarrow> u8 list option \<Rightarrow> u8 list \<Rightarrow> deinterleave_result option" where
  "De_Interleave fresh resync0 raw = do {
     (raw', siz) \<leftarrow> Resync_Stream raw;
     let raw_siz = int (length raw);
     let (resync, msg) =
       (if siz \<noteq> 0 \<and> siz < raw_siz then (Some (map fresh [0..<nat siz]), None)
        else (resync0, Some (''Resync_Stream() failed'', ''red'')));
     resync' \<leftarrow> De_Interleave_loop raw' siz 0 resync;
     Some \<lparr>di_raw = raw', di_resync = resync', di_resync_siz = siz, di_message = msg\<rparr>
   }"

section \<open>Integer square-root table\<close>

text \<open>
  \<open>(uint8_t)(sqrt((double)idx))\<close> for \<open>idx \<le> 16384\<close>: every such \<open>idx\<close> is exact as a
  double, the correctly rounded IEEE square root of a perfect square is exact, and the
  square root of any other \<open>idx\<close> is further from the next integer than a rounding
  error, so the truncation is the integer part of the real square root. It is computed
  here by counting up.
\<close>

function sqrt_trunc_from :: "nat \<Rightarrow> nat \<Rightarrow> nat" where
  "sqrt_trunc_from n k = (if (k + 1) * (k + 1) \<le> n then sqrt_trunc_from n (k + 1) else k)"
  by pat_completeness auto
termination
  by (relation "measure (\<lambda>(n, k). n - k)") auto

declare sqrt_trunc_from.simps [simp del]

definition sqrt_trunc :: "nat \<Rightarrow> nat" where
  "sqrt_trunc n = sqrt_trunc_from n 0"

definition Make_Isqrt_Table :: "u8 list" where
  "Make_Isqrt_Table = map (\<lambda>idx. word_of_nat (sqrt_trunc idx)) [0..<16385]"

text \<open>
  \<open>Isqrt(a)\<close> on the table \<open>isqrt_table\<close>. The cast \<open>(int8_t)\<close> keeps the bits of the
  table entry; the negation is done on \<open>int\<close> and converted back to \<open>int8_t\<close> by the
  return.
\<close>

definition Isqrt :: "u8 list \<Rightarrow> int \<Rightarrow> s8 option" where
  "Isqrt isqrt_table a =
     (if a \<ge> 0 then read_u8 isqrt_table a
      else do { t \<leftarrow> read_u8 isqrt_table (- a); Some (word_of_int (- sint t)) })"

section \<open>Differential decoder\<close>

text \<open>
  A call \<open>De_Diffcode(buff, length)\<close> is modelled on the list of the \<open>length\<close> symbols at
  \<open>buff\<close>, so that an access at or beyond \<open>length\<close> is a fault. The static variables
  \<open>prev_i\<close> and \<open>prev_q\<close> are passed in and returned as a pair of \<open>int\<close>.
\<close>

type_synonym diffcode_state = "int \<times> int"

definition write_s8 :: "s8 list \<Rightarrow> int \<Rightarrow> s8 \<Rightarrow> s8 list option" where
  "write_s8 buf i v = (if 0 \<le> i \<and> i < int (length buf) then Some (buf[nat i := v]) else None)"

text \<open>
  The loop \<open>for (idx = 2; idx <= length; idx += 2)\<close>, where \<open>length\<close> has already been
  decremented by 2. \<open>idx\<close> is a \<open>uint32_t\<close>; it stays below the original length, so
  \<open>idx += 2\<close> does not wrap.
\<close>

function De_Diffcode_loop ::
  "u8 list \<Rightarrow> nat \<Rightarrow> nat \<Rightarrow> s8 list \<Rightarrow> int \<Rightarrow> int \<Rightarrow> (s8 list \<times> int \<times> int) option" where
  "De_Diffcode_loop tbl len idx buff tmp1 tmp2 =
     (if idx \<le> len then do {
        bx \<leftarrow> read_u8 buff (int idx);
        by \<leftarrow> read_u8 buff (int idx + 1);
        let x = sint bx;
        let y = sint by;
        b0 \<leftarrow> read_u8 buff (int idx);
        r0 \<leftarrow> Isqrt tbl (sint b0 * tmp1);
        buff \<leftarrow> write_s8 buff (int idx) r0;
        b1 \<leftarrow> read_u8 buff (int idx + 1);
        r1 \<leftarrow> Isqrt tbl (- sint b1 * tmp2);
        buff \<leftarrow> write_s8 buff (int idx + 1) r1;
        De_Diffcode_loop tbl len (idx + 2) buff x y
      } else Some (buff, tmp1, tmp2))"
  by pat_completeness auto
termination
  by (relation "measure (\<lambda>(tbl, len, idx, buff, tmp1, tmp2). len + 1 - idx)") auto

declare De_Diffcode_loop.simps [simp del]

text \<open>
  \<open>length -= 2\<close> is reached only after \<open>buff[0]\<close> and \<open>buff[1]\<close> have been read, that is
  with \<open>length \<ge> 2\<close>, where the unsigned subtraction does not wrap.
\<close>

definition De_Diffcode ::
  "u8 list \<Rightarrow> diffcode_state \<Rightarrow> s8 list \<Rightarrow> (s8 list \<times> diffcode_state) option" where
  "De_Diffcode tbl st buff = do {
     let (prev_i, prev_q) = st;
     b0 \<leftarrow> read_u8 buff 0;
     b1 \<leftarrow> read_u8 buff 1;
     let tmp1 = sint b0;
     let tmp2 = sint b1;
     c0 \<leftarrow> read_u8 buff 0;
     r0 \<leftarrow> Isqrt tbl (sint c0 * prev_i);
     buff \<leftarrow> write_s8 buff 0 r0;
     c1 \<leftarrow> read_u8 buff 1;
     r1 \<leftarrow> Isqrt tbl (- sint c1 * prev_q);
     buff \<leftarrow> write_s8 buff 1 r1;
     (buff, tmp1, tmp2) \<leftarrow> De_Diffcode_loop tbl (length buff - 2) 2 buff tmp1 tmp2;
     Some (buff, (tmp1, tmp2))
   }"

section \<open>Properties of the square-root table\<close>

lemma square_le_mono: "(a::nat) \<le> b \<Longrightarrow> a * a \<le> b * b"
  by (simp add: mult_le_mono)

lemma sqrt_trunc_from_bounds:
  "k * k \<le> n \<Longrightarrow>
     sqrt_trunc_from n k * sqrt_trunc_from n k \<le> n \<and>
     n < (sqrt_trunc_from n k + 1) * (sqrt_trunc_from n k + 1)"
proof (induction n k rule: sqrt_trunc_from.induct)
  case (1 n k)
  show ?case
  proof (cases "(k + 1) * (k + 1) \<le> n")
    case True
    then have "sqrt_trunc_from n k = sqrt_trunc_from n (k + 1)"
      by (subst sqrt_trunc_from.simps) simp
    with "1.IH"[OF True True] show ?thesis by simp
  next
    case False
    then have "sqrt_trunc_from n k = k"
      by (subst sqrt_trunc_from.simps) simp
    with False "1.prems" show ?thesis by simp
  qed
qed

lemma sqrt_trunc_bounds:
  "sqrt_trunc n * sqrt_trunc n \<le> n" "n < (sqrt_trunc n + 1) * (sqrt_trunc n + 1)"
  using sqrt_trunc_from_bounds[of 0 n] by (simp_all add: sqrt_trunc_def)

lemma sqrt_trunc_unique:
  assumes "r * r \<le> n" "n < (r + 1) * (r + 1)"
  shows "sqrt_trunc n = r"
proof -
  let ?s = "sqrt_trunc n"
  have a: "?s * ?s \<le> n" "n < (?s + 1) * (?s + 1)" by (rule sqrt_trunc_bounds)+
  have "\<not> ?s < r"
  proof
    assume "?s < r"
    then have "?s + 1 \<le> r" by simp
    then have "(?s + 1) * (?s + 1) \<le> r * r" by (rule square_le_mono)
    with a(2) assms(1) show False by simp
  qed
  moreover have "\<not> r < ?s"
  proof
    assume "r < ?s"
    then have "r + 1 \<le> ?s" by simp
    then have "(r + 1) * (r + 1) \<le> ?s * ?s" by (rule square_le_mono)
    with a(1) assms(2) show False by simp
  qed
  ultimately show ?thesis by simp
qed

lemma sqrt_trunc_real: "int (sqrt_trunc n) = \<lfloor>sqrt (real n)\<rfloor>"
proof -
  let ?s = "sqrt_trunc n"
  have "real (?s * ?s) \<le> real n" using sqrt_trunc_bounds(1)[of n] by (simp only: of_nat_le_iff)
  then have "(real ?s)\<^sup>2 \<le> real n" by (simp add: power2_eq_square)
  then have l: "real ?s \<le> sqrt (real n)" by (simp add: real_le_rsqrt)
  have "real n < real ((?s + 1) * (?s + 1))"
    using sqrt_trunc_bounds(2)[of n] by (simp only: of_nat_less_iff)
  then have "real n < (real ?s + 1)\<^sup>2" by (simp add: power2_eq_square algebra_simps)
  then have u: "sqrt (real n) < real ?s + 1" by (simp add: real_less_lsqrt)
  from l u show ?thesis by linarith
qed

lemma sqrt_trunc_le_128: "n \<le> 16384 \<Longrightarrow> sqrt_trunc n \<le> 128"
proof (rule ccontr)
  assume n: "n \<le> 16384" and "\<not> sqrt_trunc n \<le> 128"
  then have "129 \<le> sqrt_trunc n" by simp
  then have "129 * 129 \<le> sqrt_trunc n * sqrt_trunc n" by (rule square_le_mono)
  with sqrt_trunc_bounds(1)[of n] n show False by simp
qed

lemma sqrt_trunc_lt_128: "n < 16384 \<Longrightarrow> sqrt_trunc n < 128"
proof (rule ccontr)
  assume n: "n < 16384" and "\<not> sqrt_trunc n < 128"
  then have "128 \<le> sqrt_trunc n" by simp
  then have "128 * 128 \<le> sqrt_trunc n * sqrt_trunc n" by (rule square_le_mono)
  with sqrt_trunc_bounds(1)[of n] n show False by simp
qed

lemma length_Make_Isqrt_Table: "length Make_Isqrt_Table = 16385"
  by (simp add: Make_Isqrt_Table_def)

lemma nth_Make_Isqrt_Table:
  "n \<le> 16384 \<Longrightarrow> Make_Isqrt_Table ! n = word_of_nat (sqrt_trunc n)"
  by (simp add: Make_Isqrt_Table_def)

lemma read_Make_Isqrt_Table:
  "0 \<le> a \<Longrightarrow> a \<le> 16384 \<Longrightarrow>
     read_u8 Make_Isqrt_Table a = Some (word_of_nat (sqrt_trunc (nat a)))"
  by (simp add: read_u8_def length_Make_Isqrt_Table nth_Make_Isqrt_Table)

text \<open>
  C3. After \<open>Make_Isqrt_Table\<close>, \<open>Isqrt(a)\<close> is claimed to be the truncated
  sign-preserving square root for every \<open>|a| \<le> 16384\<close>, with \<open>Isqrt(16384) = 128\<close>.
  The table entry at 16384 is 128, which the cast to \<open>int8_t\<close> turns into \<open>-128\<close>:
  at \<open>a = 16384\<close> the function returns \<open>-128\<close>. For \<open>|a| < 16384\<close> the claim holds
  (\<open>Isqrt_table_value\<close>).
\<close>

theorem Isqrt_16384:
  "Isqrt Make_Isqrt_Table 16384 = Some (- 128) \<and> sint (- 128 :: s8) = - 128"
proof -
  have "sqrt_trunc 16384 = 128" by (rule sqrt_trunc_unique) simp_all
  then show ?thesis by (simp add: Isqrt_def read_Make_Isqrt_Table)
qed

section \<open>Properties of the resynchronizer\<close>

text \<open>
  C2. Every access of \<open>Resync_Stream\<close> is claimed to stay inside the buffer, the sync
  locator being invoked only with a full search block of room. The loop guard is
  \<open>posn < raw_siz - 320\<close>, while \<open>Find_Sync\<close> reads up to 406 symbols past \<open>posn\<close>: on
  a buffer of 321 zero symbols the fifth byte of the first candidate train is read at
  320..327, beyond the end, and the run faults.
\<close>

theorem Resync_Stream_overrun:
  "Resync_Stream (replicate 321 0) = None \<and>
   Find_Sync (replicate 321 0) 0 400 80 4 0 = None \<and>
   Byte_at_Offset (replicate 321 0) (0 + (0 + 3 * 80)) = Some 255 \<and>
   Byte_at_Offset (replicate 321 0) (0 + (0 + 4 * 80)) = None \<and>
   read_u8 (replicate 321 0) 321 = None"
  by code_simp

section \<open>Properties of the differential decoder\<close>

text \<open>
  The decoder seen as a recursion over the symbol pairs of the buffer: each pair is
  replaced by the two square roots and its raw values become the previous pair of the
  next one. \<open>De_Diffcode_pairs\<close> below shows that the first-pair code and the loop of the
  source compute exactly this, faults included.
\<close>

fun diffcode_pairs :: "u8 list \<Rightarrow> int \<Rightarrow> int \<Rightarrow> s8 list \<Rightarrow> (s8 list \<times> int \<times> int) option" where
  "diffcode_pairs tbl t1 t2 (a # b # rest) = do {
     r0 \<leftarrow> Isqrt tbl (sint a * t1);
     r1 \<leftarrow> Isqrt tbl (- sint b * t2);
     (out, u1, u2) \<leftarrow> diffcode_pairs tbl (sint a) (sint b) rest;
     Some (r0 # r1 # out, u1, u2)
   }"
| "diffcode_pairs tbl t1 t2 [c] = Some ([c], t1, t2)"
| "diffcode_pairs tbl t1 t2 [] = Some ([], t1, t2)"

lemma De_Diffcode_loop_step:
  assumes "idx \<le> len" "idx + 1 < length buff"
  shows "De_Diffcode_loop tbl len idx buff t1 t2 = do {
     r0 \<leftarrow> Isqrt tbl (sint (buff ! idx) * t1);
     r1 \<leftarrow> Isqrt tbl (- sint (buff ! (idx + 1)) * t2);
     De_Diffcode_loop tbl len (idx + 2) (buff[idx := r0, idx + 1 := r1])
       (sint (buff ! idx)) (sint (buff ! (idx + 1)))
   }"
  using assms
  by (subst De_Diffcode_loop.simps)
     (auto simp: read_u8_def write_s8_def nat_add_distrib intro!: Option.bind_cong)

lemma De_Diffcode_loop_exit:
  "\<not> idx \<le> len \<Longrightarrow> De_Diffcode_loop tbl len idx buff t1 t2 = Some (buff, t1, t2)"
  by (subst De_Diffcode_loop.simps) simp

lemma De_Diffcode_loop_pairs:
  "len + 2 = length done + length rest \<Longrightarrow>
   De_Diffcode_loop tbl len (length done) (done @ rest) t1 t2 =
     map_option (\<lambda>(out, u1, u2). (done @ out, u1, u2)) (diffcode_pairs tbl t1 t2 rest)"
proof (induction tbl t1 t2 rest arbitrary: "done" rule: diffcode_pairs.induct)
  case (1 tbl t1 t2 a b rest)
  let ?buff = "done @ a # b # rest"
  have i: "length done \<le> len" "length done + 1 < length ?buff"
    using "1.prems" by simp_all
  have n: "?buff ! length done = a" "?buff ! (length done + 1) = b"
    by (simp_all add: nth_append)
  have u: "?buff[length done := r0, length done + 1 := r1] = (done @ [r0, r1]) @ rest" for r0 r1
    by (simp add: list_update_append)
  have l: "len + 2 = length (done @ [r0, r1]) + length rest" for r0 r1 :: s8
    using "1.prems" by simp
  have s: "De_Diffcode_loop tbl len (length done) ?buff t1 t2 = do {
     r0 \<leftarrow> Isqrt tbl (sint a * t1);
     r1 \<leftarrow> Isqrt tbl (- sint b * t2);
     De_Diffcode_loop tbl len (length (done @ [r0, r1])) ((done @ [r0, r1]) @ rest) (sint a) (sint b)
   }"
    by (subst De_Diffcode_loop_step[OF i]) (simp only: n u length_append list.size, simp)
  show ?case
  proof (cases "Isqrt tbl (sint a * t1)")
    case None
    then show ?thesis by (simp add: s)
  next
    case r0: (Some r0)
    show ?thesis
    proof (cases "Isqrt tbl (- sint b * t2)")
      case None
      with r0 show ?thesis by (simp add: s)
    next
      case r1: (Some r1)
      from "1.IH"[OF r0 r1 l[of r0 r1]] r0 r1 show ?thesis
        by (cases "diffcode_pairs tbl (sint a) (sint b) rest") (auto simp: s)
    qed
  qed
next
  case (3 tbl t1 t2)
  then show ?case by (simp add: De_Diffcode_loop_exit)
next
  case (2 tbl t1 t2 v)
  then show ?case by (simp add: De_Diffcode_loop_exit)
qed

lemma De_Diffcode_pairs:
  assumes "2 \<le> length buff"
  shows "De_Diffcode tbl (prev_i, prev_q) buff =
    map_option (\<lambda>(out, u1, u2). (out, (u1, u2))) (diffcode_pairs tbl prev_i prev_q buff)"
proof -
  from assms obtain a b rest where b: "buff = a # b # rest"
    by (cases buff; cases "tl buff") auto
  have l: "length rest + 2 = length [r0, r1] + length rest" for r0 r1 :: s8 by simp
  have s: "De_Diffcode tbl (prev_i, prev_q) buff = do {
     r0 \<leftarrow> Isqrt tbl (sint a * prev_i);
     r1 \<leftarrow> Isqrt tbl (- sint b * prev_q);
     (out, u1, u2) \<leftarrow> De_Diffcode_loop tbl (length rest) 2 (r0 # r1 # rest) (sint a) (sint b);
     Some (out, (u1, u2))
   }"
    unfolding b De_Diffcode_def by (simp add: read_u8_def write_s8_def)
  show ?thesis
  proof (cases "Isqrt tbl (sint a * prev_i)")
    case None
    then show ?thesis by (simp add: s[unfolded b] b)
  next
    case r0: (Some r0)
    show ?thesis
    proof (cases "Isqrt tbl (- sint b * prev_q)")
      case None
      with r0 show ?thesis by (simp add: s[unfolded b] b)
    next
      case r1: (Some r1)
      have "De_Diffcode_loop tbl (length rest) 2 (r0 # r1 # rest) (sint a) (sint b)
          = map_option (\<lambda>(out, u1, u2). (r0 # r1 # out, u1, u2))
              (diffcode_pairs tbl (sint a) (sint b) rest)"
        using De_Diffcode_loop_pairs[of "length rest" "[r0, r1]" rest tbl "sint a" "sint b"]
        by (simp add: numeral_2_eq_2)
      with r0 r1 show ?thesis
        by (cases "diffcode_pairs tbl (sint a) (sint b) rest") (auto simp: s[unfolded b] b)
    qed
  qed
qed


lemma diffcode_pairs_append:
  "even (length xs) \<Longrightarrow>
   diffcode_pairs tbl t1 t2 (xs @ ys) = do {
     (o1, u1, u2) \<leftarrow> diffcode_pairs tbl t1 t2 xs;
     (o2, v1, v2) \<leftarrow> diffcode_pairs tbl u1 u2 ys;
     Some (o1 @ o2, v1, v2)
   }"
proof (induction tbl t1 t2 xs rule: diffcode_pairs.induct)
  case (1 tbl t1 t2 a b rest)
  then have e: "even (length rest)" by simp
  show ?case
  proof (cases "Isqrt tbl (sint a * t1)")
    case None
    then show ?thesis by simp
  next
    case r0: (Some r0)
    show ?thesis
    proof (cases "Isqrt tbl (- sint b * t2)")
      case None
      with r0 show ?thesis by simp
    next
      case r1: (Some r1)
      show ?thesis
      proof (cases "diffcode_pairs tbl (sint a) (sint b) rest")
        case None
        with "1.IH"[OF r0 r1 e] r0 r1 show ?thesis by simp
      next
        case (Some x)
        obtain o1 u1 u2 where x: "x = (o1, u1, u2)" by (cases x)
        from "1.IH"[OF r0 r1 e] r0 r1 Some x show ?thesis
          by (cases "diffcode_pairs tbl u1 u2 ys") auto
      qed
    qed
  qed
next
  case (3 tbl t1 t2)
  show ?case by (cases "diffcode_pairs tbl t1 t2 ys") auto
next
  case (2 tbl t1 t2 v)
  then show ?case by simp
qed

lemma diffcode_pairs_length:
  "diffcode_pairs tbl t1 t2 xs = Some (out, u1, u2) \<Longrightarrow> length out = length xs"
proof (induction tbl t1 t2 xs arbitrary: out u1 u2 rule: diffcode_pairs.induct)
  case (1 tbl t1 t2 a b rest)
  from "1.prems" obtain r0 r1 out' where
    r: "Isqrt tbl (sint a * t1) = Some r0" "Isqrt tbl (- sint b * t2) = Some r1" and
    p: "diffcode_pairs tbl (sint a) (sint b) rest = Some (out', u1, u2)" and
    o: "out = r0 # r1 # out'"
    by (auto simp: bind_eq_Some_conv)
  from "1.IH"[OF r p] o show ?case by simp
qed simp_all

lemma diffcode_pairs_state:
  "diffcode_pairs tbl t1 t2 xs = Some (out, u1, u2) \<Longrightarrow> even (length xs) \<Longrightarrow> 2 \<le> length xs \<Longrightarrow>
     u1 = sint (xs ! (length xs - 2)) \<and> u2 = sint (xs ! (length xs - 1))"
proof (induction tbl t1 t2 xs arbitrary: out u1 u2 rule: diffcode_pairs.induct)
  case (1 tbl t1 t2 a b rest)
  from "1.prems"(1) obtain r0 r1 out' where
    r: "Isqrt tbl (sint a * t1) = Some r0" "Isqrt tbl (- sint b * t2) = Some r1" and
    p: "diffcode_pairs tbl (sint a) (sint b) rest = Some (out', u1, u2)"
    by (auto simp: bind_eq_Some_conv)
  show ?case
  proof (cases rest)
    case Nil
    with p show ?thesis by simp
  next
    case (Cons c rest')
    with "1.prems"(2) have l: "even (length rest)" "2 \<le> length rest"
      by (cases rest'; simp)+
    from "1.IH"[OF r p l] l(2) show ?thesis
      by (auto simp: nth_Cons' numeral_2_eq_2)
  qed
qed simp_all

lemma diffcode_pairs_nth:
  assumes "diffcode_pairs tbl t1 t2 xs = Some (out, u1, u2)" "2 * k + 1 < length xs"
  shows "Isqrt tbl (sint (xs ! (2 * k)) * (if k = 0 then t1 else sint (xs ! (2 * k - 2))))
           = Some (out ! (2 * k)) \<and>
         Isqrt tbl (- sint (xs ! (2 * k + 1)) * (if k = 0 then t2 else sint (xs ! (2 * k - 1))))
           = Some (out ! (2 * k + 1))"
  using assms
proof (induction tbl t1 t2 xs arbitrary: out u1 u2 k rule: diffcode_pairs.induct)
  case (1 tbl t1 t2 a b rest)
  from "1.prems"(1) obtain r0 r1 out' where
    r: "Isqrt tbl (sint a * t1) = Some r0" "Isqrt tbl (- sint b * t2) = Some r1" and
    p: "diffcode_pairs tbl (sint a) (sint b) rest = Some (out', u1, u2)" and
    o: "out = r0 # r1 # out'"
    by (auto simp: bind_eq_Some_conv)
  show ?case
  proof (cases k)
    case 0
    with r o show ?thesis by simp
  next
    case (Suc j)
    with "1.prems"(2) have j: "2 * j + 1 < length rest" by simp
    from "1.IH"[OF r p j] show ?thesis
      unfolding Suc o by (cases j) simp_all
  qed
qed auto


lemma Isqrt_None_iff: "Isqrt tbl a = None \<longleftrightarrow> int (length tbl) \<le> \<bar>a\<bar>"
  by (auto simp: Isqrt_def read_u8_def)

lemma Isqrt_table_None_iff: "Isqrt Make_Isqrt_Table a = None \<longleftrightarrow> 16384 < \<bar>a\<bar>"
  by (auto simp: Isqrt_None_iff length_Make_Isqrt_Table)

lemma Isqrt_table_nonneg:
  "0 \<le> a \<Longrightarrow> a \<le> 16384 \<Longrightarrow>
     Isqrt Make_Isqrt_Table a = Some (word_of_nat (sqrt_trunc (nat a)))"
  by (simp add: Isqrt_def read_Make_Isqrt_Table)

lemma Isqrt_table_neg:
  "a < 0 \<Longrightarrow> - 16384 \<le> a \<Longrightarrow>
     Isqrt Make_Isqrt_Table a =
       Some (word_of_int (- sint (word_of_nat (sqrt_trunc (nat (- a))) :: u8)))"
  by (simp add: Isqrt_def read_Make_Isqrt_Table)

lemma sint_s8_range: "- 128 \<le> sint (w :: s8)" "sint (w :: s8) \<le> 127"
  using sint_ge[of w] sint_lt[of w] by simp_all

lemma abs_mult_s8:
  fixes x y :: int
  assumes "- 128 \<le> x" "x \<le> 128" "- 128 \<le> y" "y \<le> 128"
  shows "\<bar>x * y\<bar> \<le> 16384"
proof -
  have "\<bar>x\<bar> * \<bar>y\<bar> \<le> 128 * 128"
    by (rule mult_mono) (use assms in auto)
  then show ?thesis by (simp add: abs_mult)
qed

lemma diffcode_pairs_total:
  "- 128 \<le> t1 \<Longrightarrow> t1 \<le> 127 \<Longrightarrow> - 128 \<le> t2 \<Longrightarrow> t2 \<le> 127 \<Longrightarrow>
     \<exists>out u1 u2. diffcode_pairs Make_Isqrt_Table t1 t2 xs = Some (out, u1, u2) \<and>
        - 128 \<le> u1 \<and> u1 \<le> 127 \<and> - 128 \<le> u2 \<and> u2 \<le> 127"
proof (induction xs arbitrary: t1 t2 rule: induct_list012)
  case (3 a b rest)
  have "\<bar>sint a * t1\<bar> \<le> 16384"
    by (rule abs_mult_s8) (use 3(3,4) sint_s8_range[of a] in auto)
  then obtain r0 where r0: "Isqrt Make_Isqrt_Table (sint a * t1) = Some r0"
    using Isqrt_table_None_iff[of "sint a * t1"] by (cases "Isqrt Make_Isqrt_Table (sint a * t1)") auto
  have "\<bar>- sint b * t2\<bar> \<le> 16384"
    by (rule abs_mult_s8) (use 3(5,6) sint_s8_range[of b] in auto)
  then obtain r1 where r1: "Isqrt Make_Isqrt_Table (- sint b * t2) = Some r1"
    using Isqrt_table_None_iff[of "- sint b * t2"]
    by (cases "Isqrt Make_Isqrt_Table (- sint b * t2)") auto
  from "3.IH"(1)[of "sint a" "sint b"] sint_s8_range[of a] sint_s8_range[of b]
  obtain out u1 u2 where
    "diffcode_pairs Make_Isqrt_Table (sint a) (sint b) rest = Some (out, u1, u2)"
    "- 128 \<le> u1" "u1 \<le> 127" "- 128 \<le> u2" "u2 \<le> 127"
    by blast
  with r0 r1 show ?case by simp
qed simp_all

lemma De_Diffcode_values:
  assumes d: "De_Diffcode tbl (prev_i, prev_q) buff = Some (out, st')"
    and l: "even (length buff)" "2 \<le> length buff"
  shows "length out = length buff"
    and "st' = (sint (buff ! (length buff - 2)), sint (buff ! (length buff - 1)))"
    and "2 * k < length buff \<Longrightarrow>
          Isqrt tbl (sint (buff ! (2 * k)) * (if k = 0 then prev_i else sint (buff ! (2 * k - 2))))
            = Some (out ! (2 * k)) \<and>
          Isqrt tbl (- sint (buff ! (2 * k + 1)) * (if k = 0 then prev_q else sint (buff ! (2 * k - 1))))
            = Some (out ! (2 * k + 1))"
proof -
  from d l(2) obtain u1 u2 where
    p: "diffcode_pairs tbl prev_i prev_q buff = Some (out, u1, u2)" and s: "st' = (u1, u2)"
    by (auto simp: De_Diffcode_pairs)
  from p show "length out = length buff" by (rule diffcode_pairs_length)
  from diffcode_pairs_state[OF p l] s
  show "st' = (sint (buff ! (length buff - 2)), sint (buff ! (length buff - 1)))" by simp
  assume "2 * k < length buff"
  with l(1) have "2 * k + 1 < length buff" by presburger
  from diffcode_pairs_nth[OF p this]
  show "Isqrt tbl (sint (buff ! (2 * k)) * (if k = 0 then prev_i else sint (buff ! (2 * k - 2))))
            = Some (out ! (2 * k)) \<and>
          Isqrt tbl (- sint (buff ! (2 * k + 1)) * (if k = 0 then prev_q else sint (buff ! (2 * k - 1))))
            = Some (out ! (2 * k + 1))" .
qed

text \<open>
  C4. For a buffer of even length at least 2 and a carried state of 8-bit signed values
  (0 or a raw symbol of an earlier call), \<open>De_Diffcode\<close> returns; \<open>out[0]\<close> is
  \<open>Isqrt(in[0] * prev_i)\<close>, \<open>out[1]\<close> is \<open>Isqrt(-in[1] * prev_q)\<close>, every later pair
  \<open>k \<ge> 1\<close> has \<open>out[2k] = Isqrt(in[2k] * in[2k-2])\<close> and
  \<open>out[2k+1] = Isqrt(-in[2k+1] * in[2k-1])\<close> on the raw input values, and the new carried
  state is the last raw input pair. (\<open>De_Diffcode_values\<close> gives the same equations for
  any table and any state whenever the call returns.)
\<close>

theorem De_Diffcode_pairwise:
  assumes "even (length buff)" "2 \<le> length buff"
    and "- 128 \<le> prev_i" "prev_i \<le> 127" "- 128 \<le> prev_q" "prev_q \<le> 127"
  shows "\<exists>out. De_Diffcode Make_Isqrt_Table (prev_i, prev_q) buff
             = Some (out, (sint (buff ! (length buff - 2)), sint (buff ! (length buff - 1)))) \<and>
           length out = length buff \<and>
           Isqrt Make_Isqrt_Table (sint (buff ! 0) * prev_i) = Some (out ! 0) \<and>
           Isqrt Make_Isqrt_Table (- sint (buff ! 1) * prev_q) = Some (out ! 1) \<and>
           (\<forall>k. 1 \<le> k \<and> 2 * k < length buff \<longrightarrow>
              Isqrt Make_Isqrt_Table (sint (buff ! (2 * k)) * sint (buff ! (2 * k - 2)))
                = Some (out ! (2 * k)) \<and>
              Isqrt Make_Isqrt_Table (- sint (buff ! (2 * k + 1)) * sint (buff ! (2 * k - 1)))
                = Some (out ! (2 * k + 1)))"
proof -
  from diffcode_pairs_total[OF assms(3-6), of buff] assms(2)
  obtain out st' where d: "De_Diffcode Make_Isqrt_Table (prev_i, prev_q) buff = Some (out, st')"
    by (auto simp: De_Diffcode_pairs)
  note v = De_Diffcode_values[OF d assms(1,2)]
  have z: "2 * 0 < length buff" using assms(2) by (cases buff) auto
  have "De_Diffcode Make_Isqrt_Table (prev_i, prev_q) buff
          = Some (out, (sint (buff ! (length buff - 2)), sint (buff ! (length buff - 1))))"
    using d v(2) by simp
  moreover have "Isqrt Make_Isqrt_Table (sint (buff ! 0) * prev_i) = Some (out ! 0)"
    "Isqrt Make_Isqrt_Table (- sint (buff ! 1) * prev_q) = Some (out ! 1)"
    using v(3)[OF z] by simp_all
  moreover have "Isqrt Make_Isqrt_Table (sint (buff ! (2 * k)) * sint (buff ! (2 * k - 2)))
                = Some (out ! (2 * k)) \<and>
              Isqrt Make_Isqrt_Table (- sint (buff ! (2 * k + 1)) * sint (buff ! (2 * k - 1)))
                = Some (out ! (2 * k + 1))" if "1 \<le> k" "2 * k < length buff" for k
    using v(3)[OF that(2)] that(1) by simp
  ultimately show ?thesis using v(1) by blast
qed

text \<open>
  C8. A stream of even length split at an even position \<open>h\<close> into two non-empty parts:
  decoding the first part and then the second, with the state of the first call carried
  into the second, gives the same buffer contents and the same final state as decoding
  the whole stream in one call. It holds for every table and every carried state.
\<close>

theorem De_Diffcode_split:
  assumes "even (length buff)" "even h" "0 < h" "h < length buff"
  shows "De_Diffcode tbl st buff = do {
           (out1, st1) \<leftarrow> De_Diffcode tbl st (take h buff);
           (out2, st2) \<leftarrow> De_Diffcode tbl st1 (drop h buff);
           Some (out1 @ out2, st2)
         }"
proof -
  obtain prev_i prev_q where st: "st = (prev_i, prev_q)" by (cases st)
  from assms have h: "2 \<le> h" by presburger
  from assms have "even (length buff - h)" "0 < length buff - h" by simp_all
  then have r: "2 \<le> length buff - h" by presburger
  have l: "2 \<le> length buff" "2 \<le> length (take h buff)" "2 \<le> length (drop h buff)"
    and e: "even (length (take h buff))"
    using h r assms by auto
  have "diffcode_pairs tbl prev_i prev_q (take h buff @ drop h buff) = do {
     (o1, u1, u2) \<leftarrow> diffcode_pairs tbl prev_i prev_q (take h buff);
     (o2, v1, v2) \<leftarrow> diffcode_pairs tbl u1 u2 (drop h buff);
     Some (o1 @ o2, v1, v2)
   }"
    by (rule diffcode_pairs_append[OF e])
  then have a: "diffcode_pairs tbl prev_i prev_q buff = do {
     (o1, u1, u2) \<leftarrow> diffcode_pairs tbl prev_i prev_q (take h buff);
     (o2, v1, v2) \<leftarrow> diffcode_pairs tbl u1 u2 (drop h buff);
     Some (o1 @ o2, v1, v2)
   }" by simp
  show ?thesis
  proof (cases "diffcode_pairs tbl prev_i prev_q (take h buff)")
    case None
    with a l show ?thesis by (simp add: st De_Diffcode_pairs)
  next
    case (Some x)
    obtain o1 u1 u2 where x: "x = (o1, u1, u2)" by (cases x)
    from a l Some x show ?thesis
      by (cases "diffcode_pairs tbl u1 u2 (drop h buff)") (auto simp: st De_Diffcode_pairs)
  qed
qed

text \<open>
  C9. With 8-bit signed symbols in the buffer and a carried state of 8-bit signed values,
  every access to the square-root table has its index in \<open>[0, 16384]\<close>: a lookup faults
  exactly when \<open>|a| > 16384\<close>, and the call returns without fault. The state it leaves
  is again a pair of 8-bit signed values, so the precondition carries over to the next
  call.
\<close>

theorem De_Diffcode_table_in_range:
  assumes "2 \<le> length buff"
    and "- 128 \<le> prev_i" "prev_i \<le> 127" "- 128 \<le> prev_q" "prev_q \<le> 127"
  shows "(\<forall>a. (Isqrt Make_Isqrt_Table a = None) = (16384 < \<bar>a\<bar>)) \<and>
         (\<exists>out st'. De_Diffcode Make_Isqrt_Table (prev_i, prev_q) buff = Some (out, st') \<and>
            - 128 \<le> fst st' \<and> fst st' \<le> 127 \<and> - 128 \<le> snd st' \<and> snd st' \<le> 127)"
  using diffcode_pairs_total[OF assms(2-5), of buff] assms(1)
  by (auto simp: De_Diffcode_pairs Isqrt_table_None_iff)

text \<open>
  C10. On the first call, with the carried state \<open>(0, 0)\<close>, the first output pair is
  \<open>(0, 0)\<close> whatever the buffer holds: both products are 0 and the table maps 0 to 0.
\<close>

theorem De_Diffcode_first_call:
  assumes "2 \<le> length buff"
  shows "\<exists>out st'. De_Diffcode Make_Isqrt_Table (0, 0) buff = Some (out, st') \<and>
           out ! 0 = 0 \<and> out ! 1 = 0"
proof -
  from assms obtain a b rest where b: "buff = a # b # rest"
    by (cases buff; cases "tl buff") auto
  have z: "Isqrt Make_Isqrt_Table 0 = Some 0"
    by (simp add: Isqrt_table_nonneg sqrt_trunc_unique[of 0 0])
  obtain out u1 u2 where
    "diffcode_pairs Make_Isqrt_Table (sint a) (sint b) rest = Some (out, u1, u2)"
    using diffcode_pairs_total[of "sint a" "sint b" rest] sint_s8_range[of a] sint_s8_range[of b]
    by blast
  with z show ?thesis by (simp add: b De_Diffcode_pairs)
qed


lemma De_Diffcode_example:
  "De_Diffcode Make_Isqrt_Table (5, - 7) [1, 2, 3, 4] = Some ([2, 3, 1, - 2], (3, 4))"
  by (simp add: De_Diffcode_pairs Isqrt_table_nonneg Isqrt_table_neg
      sqrt_trunc_def sqrt_trunc_from.simps)

text \<open>
  The buffer \<open>[1, 2, 3, 4]\<close> with carried state \<open>(5, -7)\<close>.
\<close>

theorem De_Diffcode_pairwise_witness:
  "even (length [1, 2, 3, 4 :: s8]) \<and> 2 \<le> length [1, 2, 3, 4 :: s8] \<and>
   - 128 \<le> (5 :: int) \<and> (5 :: int) \<le> 127 \<and> - 128 \<le> (- 7 :: int) \<and> (- 7 :: int) \<le> 127 \<and>
   (\<exists>out. De_Diffcode Make_Isqrt_Table (5, - 7) [1, 2, 3, 4] = Some (out, (3, 4)) \<and>
      length out = 4 \<and>
      Isqrt Make_Isqrt_Table (1 * 5) = Some (out ! 0) \<and>
      Isqrt Make_Isqrt_Table (- 2 * - 7) = Some (out ! 1) \<and>
      Isqrt Make_Isqrt_Table (3 * 1) = Some (out ! 2) \<and>
      Isqrt Make_Isqrt_Table (- 4 * 2) = Some (out ! 3))"
proof -
  from De_Diffcode_pairwise[of "[1, 2, 3, 4]" 5 "- 7"]
  obtain out where
    d: "De_Diffcode Make_Isqrt_Table (5, - 7) [1, 2, 3, 4] = Some (out, (3, 4))" and
    l: "length out = 4" and
    a: "Isqrt Make_Isqrt_Table (1 * 5) = Some (out ! 0)"
       "Isqrt Make_Isqrt_Table (- 2 * - 7) = Some (out ! 1)" and
    k: "\<forall>k. 1 \<le> k \<and> 2 * k < length [1, 2, 3, 4 :: s8] \<longrightarrow>
              Isqrt Make_Isqrt_Table (sint ([1, 2, 3, 4 :: s8] ! (2 * k)) * sint ([1, 2, 3, 4 :: s8] ! (2 * k - 2)))
                = Some (out ! (2 * k)) \<and>
              Isqrt Make_Isqrt_Table (- sint ([1, 2, 3, 4 :: s8] ! (2 * k + 1)) * sint ([1, 2, 3, 4 :: s8] ! (2 * k - 1)))
                = Some (out ! (2 * k + 1))"
    by auto
  from k[rule_format, of 1] have
    "Isqrt Make_Isqrt_Table (3 * 1) = Some (out ! 2)" "Isqrt Make_Isqrt_Table (- 4 * 2) = Some (out ! 3)"
    by simp_all
  with d l a show ?thesis by simp
qed

text \<open>
  The stream \<open>[1, 2, 3, 4]\<close> split in the middle, carried state \<open>(5, -7)\<close>: both ways
  give \<open>[2, 3, 1, -2]\<close> and the state \<open>(3, 4)\<close>.
\<close>

theorem De_Diffcode_split_witness:
  "even (length [1, 2, 3, 4 :: s8]) \<and> even (2 :: nat) \<and> (0 :: nat) < 2 \<and>
   2 < length [1, 2, 3, 4 :: s8] \<and>
   De_Diffcode Make_Isqrt_Table (5, - 7) [1, 2, 3, 4] = Some ([2, 3, 1, - 2], (3, 4)) \<and>
   do {
     (out1, st1) \<leftarrow> De_Diffcode Make_Isqrt_Table (5, - 7) (take 2 [1, 2, 3, 4]);
     (out2, st2) \<leftarrow> De_Diffcode Make_Isqrt_Table st1 (drop 2 [1, 2, 3, 4]);
     Some (out1 @ out2, st2)
   } = Some ([2, 3, 1, - 2], (3, 4))"
  using De_Diffcode_split[of "[1, 2, 3, 4]" 2 Make_Isqrt_Table "(5, - 7)"] De_Diffcode_example
  by simp

text \<open>
  The extreme symbols: \<open>(-128) * (-128) = 16384\<close> is the largest index met.
\<close>

theorem De_Diffcode_table_in_range_witness:
  "2 \<le> length [- 128, - 128 :: s8] \<and>
   - 128 \<le> (- 128 :: int) \<and> (- 128 :: int) \<le> 127 \<and> - 128 \<le> (127 :: int) \<and> (127 :: int) \<le> 127 \<and>
   (\<forall>a. (Isqrt Make_Isqrt_Table a = None) = (16384 < \<bar>a\<bar>)) \<and>
   (\<exists>out st'. De_Diffcode Make_Isqrt_Table (- 128, 127) [- 128, - 128] = Some (out, st') \<and>
      - 128 \<le> fst st' \<and> fst st' \<le> 127 \<and> - 128 \<le> snd st' \<and> snd st' \<le> 127)"
  using De_Diffcode_table_in_range[of "[- 128, - 128]" "- 128" 127]
  by simp

text \<open>
  A first call on \<open>[100, -50, 7, 9]\<close>.
\<close>

theorem De_Diffcode_first_call_witness:
  "2 \<le> length [100, - 50, 7, 9 :: s8] \<and>
   (\<exists>out st'. De_Diffcode Make_Isqrt_Table (0, 0) [100, - 50, 7, 9] = Some (out, st') \<and>
      out ! 0 = 0 \<and> out ! 1 = 0)"
  using De_Diffcode_first_call[of "[100, - 50, 7, 9]"]
  by simp

section \<open>Properties of the sync locator\<close>

text \<open>
  The hard-decision byte in the words of the specification: over the 8 symbols from
  index \<open>p\<close>, one bit per symbol, 1 if the symbol is below 128 and 0 otherwise, packed
  least-significant bit first.
\<close>

definition hard_byte :: "u8 list \<Rightarrow> int \<Rightarrow> u8" where
  "hard_byte buf p = horner_sum of_bool 2 (map (\<lambda>k. buf ! nat (p + int k) < 128) [0..<8])"

lemma bit_hard_byte: "bit (hard_byte buf p) k \<longleftrightarrow> k < 8 \<and> buf ! nat (p + int k) < 128"
  by (auto simp: hard_byte_def bit_horner_sum_bit_word_iff)

lemma Byte_at_Offset_loop_bits:
  "Byte_at_Offset_loop buf p i result = Some r \<Longrightarrow>
     bit r k \<longleftrightarrow> bit result k \<or> (i \<le> k \<and> k < 8 \<and> buf ! nat (p + int k) < 128)"
proof (induction buf p i result rule: Byte_at_Offset_loop.induct)
  case (1 buf p i result)
  show ?case
  proof (cases "i < 8")
    case False
    with "1.prems" show ?thesis by (subst (asm) Byte_at_Offset_loop.simps) auto
  next
    case True
    let ?test = "if buf ! nat (p + int i) < 128 then 1 else 0 :: u8"
    from True "1.prems" have
      d: "read_u8 buf (p + int i) = Some (buf ! nat (p + int i))" and
      n: "Byte_at_Offset_loop buf p (i + 1) (result OR push_bit i ?test) = Some r"
      by (subst (asm) Byte_at_Offset_loop.simps; auto simp: read_u8_def bind_eq_Some_conv split: if_splits)+
    have t: "bit (push_bit i ?test) k \<longleftrightarrow> k = i \<and> buf ! nat (p + int i) < 128"
      using True by (auto simp: bit_push_bit_iff bit_1_iff)
    have "i + 1 \<le> k \<longleftrightarrow> i \<le> k \<and> k \<noteq> i" by auto
    with "1.IH"[OF True d refl n] t True show ?thesis
      by (simp add: bit_or_iff) blast
  qed
qed

lemma Byte_at_Offset_loop_bounds:
  "Byte_at_Offset_loop buf p i result = Some r \<Longrightarrow> i \<le> k \<Longrightarrow> k < 8 \<Longrightarrow>
     0 \<le> p + int k \<and> p + int k < int (length buf)"
proof (induction buf p i result rule: Byte_at_Offset_loop.induct)
  case (1 buf p i result)
  from "1.prems" have i: "i < 8" by simp
  let ?test = "if buf ! nat (p + int i) < 128 then 1 else 0 :: u8"
  from i "1.prems"(1) have
    d: "read_u8 buf (p + int i) = Some (buf ! nat (p + int i))" and
    b: "0 \<le> p + int i \<and> p + int i < int (length buf)" and
    n: "Byte_at_Offset_loop buf p (i + 1) (result OR push_bit i ?test) = Some r"
    by (subst (asm) Byte_at_Offset_loop.simps; auto simp: read_u8_def bind_eq_Some_conv split: if_splits)+
  show ?case
  proof (cases "k = i")
    case True
    with b show ?thesis by simp
  next
    case False
    with "1.prems" have "i + 1 \<le> k" by simp
    from "1.IH"[OF i d refl n this "1.prems"(3)] show ?thesis .
  qed
qed

lemma Byte_at_Offset_loop_Some:
  "0 \<le> p \<Longrightarrow> p + 8 \<le> int (length buf) \<Longrightarrow> \<exists>r. Byte_at_Offset_loop buf p i result = Some r"
proof (induction buf p i result rule: Byte_at_Offset_loop.induct)
  case (1 buf p i result)
  show ?case
  proof (cases "i < 8")
    case False
    then show ?thesis by (subst Byte_at_Offset_loop.simps) simp
  next
    case True
    let ?test = "if buf ! nat (p + int i) < 128 then 1 else 0 :: u8"
    from True "1.prems" have d: "read_u8 buf (p + int i) = Some (buf ! nat (p + int i))"
      by (simp add: read_u8_def)
    from "1.IH"[OF True d refl "1.prems"] d True show ?thesis
      by (subst Byte_at_Offset_loop.simps) simp
  qed
qed

lemma Byte_at_Offset_Some:
  assumes "Byte_at_Offset buf p = Some r"
  shows "0 \<le> p" "p + 8 \<le> int (length buf)" "r = hard_byte buf p"
proof -
  from assms have l: "Byte_at_Offset_loop buf p 0 0 = Some r" by (simp add: Byte_at_Offset_def)
  from Byte_at_Offset_loop_bounds[OF l, of 0] show "0 \<le> p" by simp
  from Byte_at_Offset_loop_bounds[OF l, of 7] show "p + 8 \<le> int (length buf)" by simp
  show "r = hard_byte buf p"
    by (rule bit_word_eqI) (simp add: Byte_at_Offset_loop_bits[OF l] bit_hard_byte)
qed

lemma Byte_at_Offset_eq:
  assumes "0 \<le> p" "p + 8 \<le> int (length buf)"
  shows "Byte_at_Offset buf p = Some (hard_byte buf p)"
proof -
  from Byte_at_Offset_loop_Some[OF assms, of 0 0]
  obtain r where r: "Byte_at_Offset buf p = Some r" by (auto simp: Byte_at_Offset_def)
  from Byte_at_Offset_Some(3)[OF r] r show ?thesis by simp
qed

text \<open>
  A sync train at \<open>q\<close>: the byte at \<open>q\<close> recurs at \<open>q + k * step\<close> for every
  \<open>k = 1..depth\<close>.
\<close>

definition sync_train :: "u8 list \<Rightarrow> int \<Rightarrow> int \<Rightarrow> int \<Rightarrow> bool" where
  "sync_train buf q step depth =
     (\<forall>k\<in>{1..depth}. hard_byte buf (q + k * step) = hard_byte buf q)"

lemma Find_Sync_ahead_eq:
  assumes "\<forall>k. j \<le> k \<and> k \<le> depth \<longrightarrow>
             0 \<le> p + (i + k * step) \<and> p + (i + k * step) + 8 \<le> int (length buf)"
  shows "Find_Sync_ahead buf p i step depth sync j =
           Some (\<forall>k. j \<le> k \<and> k \<le> depth \<longrightarrow> hard_byte buf (p + (i + k * step)) = sync)"
  using assms
proof (induction buf p i step depth sync j rule: Find_Sync_ahead.induct)
  case (1 buf p i step depth sync j)
  show ?case
  proof (cases "j \<le> depth")
    case False
    then show ?thesis by (subst Find_Sync_ahead.simps) auto
  next
    case True
    with "1.prems" have b: "Byte_at_Offset buf (p + (i + j * step))
        = Some (hard_byte buf (p + (i + j * step)))"
      by (intro Byte_at_Offset_eq) auto
    show ?thesis
    proof (cases "sync = hard_byte buf (p + (i + j * step))")
      case False
      with True b show ?thesis
        by (subst Find_Sync_ahead.simps) auto
    next
      case eq: True
      have "Find_Sync_ahead buf p i step depth sync (j + 1) =
          Some (\<forall>k. j + 1 \<le> k \<and> k \<le> depth \<longrightarrow> hard_byte buf (p + (i + k * step)) = sync)"
        using "1.IH"[OF True b] eq "1.prems" by simp
      moreover have "(\<forall>k. j + 1 \<le> k \<and> k \<le> depth \<longrightarrow> hard_byte buf (p + (i + k * step)) = sync)
          \<longleftrightarrow> (\<forall>k. j \<le> k \<and> k \<le> depth \<longrightarrow> hard_byte buf (p + (i + k * step)) = sync)"
      proof (intro iffI allI impI)
        fix k
        assume a: "\<forall>k. j + 1 \<le> k \<and> k \<le> depth \<longrightarrow> hard_byte buf (p + (i + k * step)) = sync"
          and k: "j \<le> k \<and> k \<le> depth"
        show "hard_byte buf (p + (i + k * step)) = sync"
        proof (cases "k = j")
          case True
          with eq show ?thesis by simp
        next
          case False
          with k a show ?thesis by simp
        qed
      qed simp
      ultimately show ?thesis using True b eq
        by (subst Find_Sync_ahead.simps) simp
    qed
  qed
qed

lemma Find_Sync_ahead_True:
  "Find_Sync_ahead buf p i step depth sync j = Some True \<Longrightarrow> j \<le> k \<Longrightarrow> k \<le> depth \<Longrightarrow>
     Byte_at_Offset buf (p + (i + k * step)) = Some sync"
proof (induction buf p i step depth sync j rule: Find_Sync_ahead.induct)
  case (1 buf p i step depth sync j)
  from "1.prems" have j: "j \<le> depth" by simp
  from j "1.prems"(1) obtain test where
    b: "Byte_at_Offset buf (p + (i + j * step)) = Some test"
    by (subst (asm) Find_Sync_ahead.simps) (auto simp: bind_eq_Some_conv)
  from j b "1.prems"(1) have t: "sync = test"
    and n: "Find_Sync_ahead buf p i step depth sync (j + 1) = Some True"
    by (subst (asm) Find_Sync_ahead.simps; auto split: if_splits)+
  show ?case
  proof (cases "k = j")
    case True
    with b t show ?thesis by simp
  next
    case False
    with "1.prems" have "j + 1 \<le> k" by simp
    from "1.IH"[OF j b _ n this "1.prems"(3)] t show ?thesis by simp
  qed
qed

lemma Find_Sync_scan_train:
  "Find_Sync_scan buf p limit step depth i sy0 = Some (True, off, sy) \<Longrightarrow>
     1 \<le> k \<Longrightarrow> k \<le> depth \<Longrightarrow> Byte_at_Offset buf (p + (off + k * step)) = Some sy"
proof (induction buf p limit step depth i sy0 rule: Find_Sync_scan.induct)
  case (1 buf p limit step depth i sync)
  show ?case
  proof (cases "i < limit")
    case False
    with "1.prems" show ?thesis by (subst (asm) Find_Sync_scan.simps) simp
  next
    case True
    from True "1.prems"(1) obtain sy' r where
      b: "Byte_at_Offset buf (p + i) = Some sy'" and
      a: "Find_Sync_ahead buf p i step depth sy' 1 = Some r" and
      c: "(if r then Some (True, i, sy') else Find_Sync_scan buf p limit step depth (i + 1) sy')
            = Some (True, off, sy)"
      by (subst (asm) Find_Sync_scan.simps) (auto simp: bind_eq_Some_conv)
    show ?thesis
    proof (cases r)
      case True
      with c have o: "off = i" "sy = sy'" by simp_all
      from a True have "Find_Sync_ahead buf p i step depth sy' 1 = Some True" by simp
      from Find_Sync_ahead_True[OF this "1.prems"(2,3)] o show ?thesis by simp
    next
      case False
      with c have "Find_Sync_scan buf p limit step depth (i + 1) sy' = Some (True, off, sy)"
        by simp
      from "1.IH"[OF \<open>i < limit\<close> b a _ this "1.prems"(2,3)] False show ?thesis by simp
    qed
  qed
qed

lemma Find_Sync_scan_eq:
  assumes "0 \<le> depth" "\<forall>i' k. i \<le> i' \<and> i' < limit \<and> 0 \<le> k \<and> k \<le> depth \<longrightarrow>
             0 \<le> p + (i' + k * step) \<and> p + (i' + k * step) + 8 \<le> int (length buf)"
  shows "\<exists>found off sy. Find_Sync_scan buf p limit step depth i sy0 = Some (found, off, sy) \<and>
     (found \<longleftrightarrow> (\<exists>i'. i \<le> i' \<and> i' < limit \<and> sync_train buf (p + i') step depth)) \<and>
     (found \<longrightarrow> i \<le> off \<and> off < limit \<and> sync_train buf (p + off) step depth \<and>
        (\<forall>i'. i \<le> i' \<and> i' < off \<longrightarrow> \<not> sync_train buf (p + i') step depth) \<and>
        sy = hard_byte buf (p + off))"
  using assms
proof (induction buf p limit step depth i sy0 rule: Find_Sync_scan.induct)
  case (1 buf p limit step depth i sync)
  show ?case
  proof (cases "i < limit")
    case False
    then show ?thesis by (subst Find_Sync_scan.simps) auto
  next
    case True
    from True "1.prems"(1) "1.prems"(2)[rule_format, of i 0]
    have "0 \<le> p + i \<and> p + i + 8 \<le> int (length buf)"
      by (simp add: add.assoc)
    then have b: "Byte_at_Offset buf (p + i) = Some (hard_byte buf (p + i))"
      by (intro Byte_at_Offset_eq) simp_all
    have "\<forall>k. 1 \<le> k \<and> k \<le> depth \<longrightarrow>
             0 \<le> p + (i + k * step) \<and> p + (i + k * step) + 8 \<le> int (length buf)"
    proof (intro allI impI)
      fix k assume "1 \<le> k \<and> k \<le> depth"
      with True "1.prems"(2)[rule_format, of i k]
      show "0 \<le> p + (i + k * step) \<and> p + (i + k * step) + 8 \<le> int (length buf)" by simp
    qed
    from Find_Sync_ahead_eq[OF this]
    have a: "Find_Sync_ahead buf p i step depth (hard_byte buf (p + i)) 1 =
      Some (\<forall>k. 1 \<le> k \<and> k \<le> depth \<longrightarrow> hard_byte buf (p + (i + k * step)) = hard_byte buf (p + i))" .
    have t: "(\<forall>k. 1 \<le> k \<and> k \<le> depth \<longrightarrow> hard_byte buf (p + (i + k * step)) = hard_byte buf (p + i))
        \<longleftrightarrow> sync_train buf (p + i) step depth"
      by (auto simp: sync_train_def add.assoc)
    show ?thesis
    proof (cases "sync_train buf (p + i) step depth")
      case tr: True
      with True a b t show ?thesis
        by (subst Find_Sync_scan.simps) auto
    next
      case nt: False
      have "\<forall>i' k. i + 1 \<le> i' \<and> i' < limit \<and> 0 \<le> k \<and> k \<le> depth \<longrightarrow>
             0 \<le> p + (i' + k * step) \<and> p + (i' + k * step) + 8 \<le> int (length buf)"
      proof (intro allI impI)
        fix i' k assume "i + 1 \<le> i' \<and> i' < limit \<and> 0 \<le> k \<and> k \<le> depth"
        with "1.prems"(2)[rule_format, of i' k]
        show "0 \<le> p + (i' + k * step) \<and> p + (i' + k * step) + 8 \<le> int (length buf)" by simp
      qed
      from "1.IH"[OF True b a _ "1.prems"(1) this] nt t
      have "\<exists>found off sy.
        Find_Sync_scan buf p limit step depth (i + 1) (hard_byte buf (p + i)) = Some (found, off, sy) \<and>
        (found \<longleftrightarrow> (\<exists>i'. i + 1 \<le> i' \<and> i' < limit \<and> sync_train buf (p + i') step depth)) \<and>
        (found \<longrightarrow> i + 1 \<le> off \<and> off < limit \<and> sync_train buf (p + off) step depth \<and>
            (\<forall>i'. i + 1 \<le> i' \<and> i' < off \<longrightarrow> \<not> sync_train buf (p + i') step depth) \<and>
            sy = hard_byte buf (p + off))"
        by simp
      then obtain found off sy where
        f: "Find_Sync_scan buf p limit step depth (i + 1) (hard_byte buf (p + i)) = Some (found, off, sy)" and
        g: "found \<longleftrightarrow> (\<exists>i'. i + 1 \<le> i' \<and> i' < limit \<and> sync_train buf (p + i') step depth)" and
        h: "found \<longrightarrow> i + 1 \<le> off \<and> off < limit \<and> sync_train buf (p + off) step depth \<and>
            (\<forall>i'. i + 1 \<le> i' \<and> i' < off \<longrightarrow> \<not> sync_train buf (p + i') step depth) \<and>
            sy = hard_byte buf (p + off)"
        by blast
      have e: "i + 1 \<le> i'" if "i \<le> i'" "sync_train buf (p + i') step depth" for i'
      proof -
        from that(2) nt have "i' \<noteq> i" by auto
        with that(1) show ?thesis by simp
      qed
      have s: "Find_Sync_scan buf p limit step depth i sync = Some (found, off, sy)"
        using True a b t nt f by (subst Find_Sync_scan.simps) simp
      have "found \<longleftrightarrow> (\<exists>i'. i \<le> i' \<and> i' < limit \<and> sync_train buf (p + i') step depth)"
      proof
        assume found
        with g obtain i' where "i + 1 \<le> i'" "i' < limit" "sync_train buf (p + i') step depth"
          by blast
        then have "i \<le> i' \<and> i' < limit \<and> sync_train buf (p + i') step depth" by simp
        then show "\<exists>i'. i \<le> i' \<and> i' < limit \<and> sync_train buf (p + i') step depth" ..
      next
        assume "\<exists>i'. i \<le> i' \<and> i' < limit \<and> sync_train buf (p + i') step depth"
        then obtain i' where i': "i \<le> i'" "i' < limit" "sync_train buf (p + i') step depth"
          by blast
        from e[OF i'(1,3)] i'(2,3) g show found by blast
      qed
      moreover have "i \<le> off \<and> off < limit \<and> sync_train buf (p + off) step depth \<and>
            (\<forall>i'. i \<le> i' \<and> i' < off \<longrightarrow> \<not> sync_train buf (p + i') step depth) \<and>
            sy = hard_byte buf (p + off)" if found
      proof -
        from h that have h': "i + 1 \<le> off" "off < limit" "sync_train buf (p + off) step depth"
          "\<forall>i'. i + 1 \<le> i' \<and> i' < off \<longrightarrow> \<not> sync_train buf (p + i') step depth"
          "sy = hard_byte buf (p + off)" by simp_all
        have "\<not> sync_train buf (p + i') step depth" if "i \<le> i'" "i' < off" for i'
          using e[OF that(1)] h'(4) that(2) by blast
        with h' show ?thesis by simp
      qed
      ultimately show ?thesis using s by blast
    qed
  qed
qed


text \<open>
  C5. When the search block and the 8-symbol window behind it lie inside the buffer,
  \<open>Find_Sync\<close> returns; it reports success exactly when some offset \<open>i\<close> in
  \<open>[0, block_siz - step * depth)\<close> starts a sync train, and then it reports the smallest
  such offset and the hard-decision byte found there. Otherwise it reports false.
\<close>

theorem Find_Sync_correct:
  assumes "0 \<le> p" "0 \<le> step" "0 \<le> depth" "p + block_siz + 7 \<le> int (length buf)"
  shows "\<exists>found off sy. Find_Sync buf p block_siz step depth sy0 = Some (found, off, sy) \<and>
     (found \<longleftrightarrow>
        (\<exists>i. 0 \<le> i \<and> i < block_siz - step * depth \<and> sync_train buf (p + i) step depth)) \<and>
     (found \<longrightarrow> 0 \<le> off \<and> off < block_siz - step * depth \<and>
        sync_train buf (p + off) step depth \<and>
        (\<forall>i. 0 \<le> i \<and> i < off \<longrightarrow> \<not> sync_train buf (p + i) step depth) \<and>
        sy = hard_byte buf (p + off))"
proof -
  have "\<forall>i' k. 0 \<le> i' \<and> i' < block_siz - step * depth \<and> 0 \<le> k \<and> k \<le> depth \<longrightarrow>
          0 \<le> p + (i' + k * step) \<and> p + (i' + k * step) + 8 \<le> int (length buf)"
  proof (intro allI impI)
    fix i' k
    assume a: "0 \<le> i' \<and> i' < block_siz - step * depth \<and> 0 \<le> k \<and> k \<le> depth"
    then have "k * step \<le> depth * step" using assms(2) by (simp add: mult_right_mono)
    moreover have "0 \<le> k * step" using a assms(2) by simp
    ultimately show "0 \<le> p + (i' + k * step) \<and> p + (i' + k * step) + 8 \<le> int (length buf)"
      using a assms(1,4) by (simp add: mult.commute)
  qed
  from Find_Sync_scan_eq[OF assms(3) this, of sy0] show ?thesis
    by (simp add: Find_Sync_def)
qed

text \<open>
  Three leading symbols, then four frames of the sync word \<open>00100111\<close> followed by two
  data symbols: with a stride of 10 and a depth of 2 the train is found at offset 3.
\<close>

definition sync_example :: "u8 list" where
  "sync_example = [200, 200, 200] @ concat (replicate 4 [0, 0, 0, 200, 200, 0, 200, 200, 200, 0])"

text \<open>
  The search on \<open>sync_example\<close>: success at offset 3 with the byte \<open>0x27\<close>, and no
  train at the offsets 0, 1 and 2.
\<close>

theorem Find_Sync_correct_witness:
  "(0 :: int) \<le> 0 \<and> (0 :: int) \<le> 10 \<and> (0 :: int) \<le> 2 \<and>
   0 + 30 + 7 \<le> int (length sync_example) \<and>
   Find_Sync sync_example 0 30 10 2 0 = Some (True, 3, 39) \<and>
   sync_train sync_example 3 10 2 \<and> hard_byte sync_example 3 = 39 \<and>
   \<not> sync_train sync_example 0 10 2 \<and> \<not> sync_train sync_example 1 10 2 \<and>
   \<not> sync_train sync_example 2 10 2"
proof -
  have e: "Find_Sync sync_example 0 30 10 2 0 = Some (True, 3, 39)" by code_simp
  have l: "0 + 30 + 7 \<le> int (length sync_example)" by code_simp
  from Find_Sync_correct[of 0 10 2 30 sync_example 0, OF _ _ _ l] e
  have t: "sync_train sync_example 3 10 2" "hard_byte sync_example 3 = 39"
    and n: "\<forall>i. 0 \<le> i \<and> i < 3 \<longrightarrow> \<not> sync_train sync_example i 10 2"
    by simp_all
  from n[rule_format, of 0] n[rule_format, of 1] n[rule_format, of 2] t e l
  show ?thesis by simp
qed

section \<open>Length of the resynchronized stream\<close>

text \<open>
  A sync train of the downlink format inside the raw buffer: five equal hard-decision
  bytes 80 symbols apart, the last one ending inside the buffer.
\<close>

definition sync_train_in :: "u8 list \<Rightarrow> int \<Rightarrow> bool" where
  "sync_train_in raw q = (0 \<le> q \<and> q + 328 \<le> int (length raw) \<and> sync_train raw q 80 4)"

text \<open>
  The loop invariant of \<open>Resync_Stream\<close>: the output count is a multiple of 72 and
  stays behind the read cursor by the 8 sync symbols of every frame copied, and the
  cursor is 0 or inside the buffer.
\<close>

definition resync_inv :: "int \<Rightarrow> resync_state \<Rightarrow> bool" where
  "resync_inv raw_siz s =
     (0 \<le> posn s \<and> (posn s = 0 \<or> posn s < raw_siz) \<and> 0 \<le> resync_siz s \<and>
      72 dvd resync_siz s \<and> 10 * resync_siz s \<le> 9 * posn s \<and>
      int (length (raw_buf s)) = raw_siz)"

lemma memcpy_u8_length: "memcpy_u8 dst d src s n = Some r \<Longrightarrow> length r = length dst"
  by (auto simp: memcpy_u8_def split: if_splits)

lemma Resync_track_inv:
  "Resync_track src raw_siz s = Some s' \<Longrightarrow> resync_inv raw_siz s \<Longrightarrow> resync_inv raw_siz s'"
proof (induction src raw_siz s rule: Resync_track.induct)
  case (1 src raw_siz s)
  show ?case
  proof (cases "posn s < raw_siz - 80")
    case False
    with "1.prems" show ?thesis by (subst (asm) Resync_track.simps) simp
  next
    case True
    from True "1.prems"(1) obtain ok where
      l: "Resync_look_ahead src (raw_siz - 80) (posn s) (sync_byte s) 0 = Some ok"
      by (subst (asm) Resync_track.simps) (auto simp: bind_eq_Some_conv)
    show ?thesis
    proof (cases ok)
      case False
      with True l "1.prems" show ?thesis
        by (subst (asm) Resync_track.simps) simp
    next
      case ok: True
      with True l "1.prems"(1) obtain buf' where
        m: "memcpy_u8 (raw_buf s) (resync_siz s) src (posn s + 8) 72 = Some buf'" and
        r: "Resync_track src raw_siz
              (s\<lparr>raw_buf := buf', resync_siz := resync_siz s + 72, posn := posn s + 80\<rparr>) = Some s'"
        by (subst (asm) Resync_track.simps) (auto simp: bind_eq_Some_conv)
      have "resync_inv raw_siz
              (s\<lparr>raw_buf := buf', resync_siz := resync_siz s + 72, posn := posn s + 80\<rparr>)"
        using "1.prems"(2) True memcpy_u8_length[OF m] by (simp add: resync_inv_def)
      from "1.IH"[OF True l _ m r this] ok show ?thesis by simp
    qed
  qed
qed

lemma Find_Sync_found_train:
  assumes "Find_Sync src p 400 80 4 sy0 = Some (True, off, sy)"
  shows "0 \<le> off" "off < 80" "sync_train_in src (p + off)"
proof -
  from assms have f: "Find_Sync_scan src p 80 80 4 0 sy0 = Some (True, off, sy)"
    by (simp add: Find_Sync_def)
  from Find_Sync_scan_found[OF f] have o: "0 \<le> off" "off < 80"
    and b0: "Byte_at_Offset src (p + off) = Some sy" by simp_all
  from o show "0 \<le> off" "off < 80" .
  have b: "Byte_at_Offset src (p + (off + k * 80)) = Some sy" if "1 \<le> k" "k \<le> 4" for k
    using Find_Sync_scan_train[OF f that] .
  have "hard_byte src (p + off + k * 80) = hard_byte src (p + off)" if "k \<in> {1..4}" for k
    using Byte_at_Offset_Some(3)[OF b[of k]] Byte_at_Offset_Some(3)[OF b0] that
    by (simp add: add.assoc)
  moreover from Byte_at_Offset_Some(1)[OF b0] have "0 \<le> p + off" .
  moreover from Byte_at_Offset_Some(2)[OF b[of 4]] have "p + off + 328 \<le> int (length src)"
    by simp
  ultimately show "sync_train_in src (p + off)"
    by (simp add: sync_train_in_def sync_train_def)
qed

lemma Resync_acquire_inv:
  "Resync_acquire src raw_siz s = Some s' \<Longrightarrow> resync_inv raw_siz s \<Longrightarrow>
     resync_inv raw_siz s' \<and> (resync_siz s' = resync_siz s \<or> (\<exists>q. sync_train_in src q))"
proof (induction src raw_siz s rule: Resync_acquire.induct)
  case (1 src raw_siz s)
  show ?case
  proof (cases "posn s < raw_siz - 320")
    case False
    with "1.prems" show ?thesis by (subst (asm) Resync_acquire.simps) simp
  next
    case True
    from True "1.prems"(1) obtain found off sy where
      f: "Find_Sync src (posn s) 400 80 4 (sync_byte s) = Some (found, off, sy)"
      by (subst (asm) Resync_acquire.simps) (auto simp: bind_eq_Some_conv)
    show ?thesis
    proof (cases found)
      case False
      let ?s = "s\<lparr>posn := posn s + 240, sync_byte := sy\<rparr>"
      from True f False "1.prems"(1) have r: "Resync_acquire src raw_siz ?s = Some s'"
        by (subst (asm) Resync_acquire.simps) simp
      have "resync_inv raw_siz ?s"
        using "1.prems"(2) True by (simp add: resync_inv_def)
      from "1.IH"(1)[OF True f refl refl False r this] show ?thesis by simp
    next
      case found: True
      let ?s = "s\<lparr>posn := posn s + off, sync_byte := sy\<rparr>"
      from True f found "1.prems"(1) obtain s1 where
        t: "Resync_track src raw_siz ?s = Some s1" and
        r: "Resync_acquire src raw_siz s1 = Some s'"
        by (subst (asm) Resync_acquire.simps) (auto simp: bind_eq_Some_conv)
      from f found have "Find_Sync src (posn s) 400 80 4 (sync_byte s) = Some (True, off, sy)"
        by simp
      note o = Find_Sync_found_train[OF this]
      have "resync_inv raw_siz ?s"
        using "1.prems"(2) True o(1,2) by (simp add: resync_inv_def)
      from Resync_track_inv[OF t this] have i1: "resync_inv raw_siz s1" .
      from found have nn: "\<not> \<not> found" by simp
      from "1.IH"(2)[OF True f refl refl nn t r i1]
      have "resync_inv raw_siz s'" by simp
      with o(3) show ?thesis by blast
    qed
  qed
qed

lemma Resync_Stream_props:
  assumes "Resync_Stream raw = Some (raw', n)"
  shows "72 dvd n" "0 \<le> n" "length raw' = length raw"
    "n = 0 \<or> (n < int (length raw) \<and> (\<exists>q. sync_train_in raw q))"
proof -
  let ?s0 = "\<lparr>posn = 0, sync_byte = 0, raw_buf = raw, resync_siz = 0\<rparr>"
  from assms obtain s where
    a: "Resync_acquire raw (int (length raw)) ?s0 = Some s" and
    r: "raw' = raw_buf s" "n = resync_siz s"
    by (auto simp: Resync_Stream_def bind_eq_Some_conv)
  have "resync_inv (int (length raw)) ?s0" by (simp add: resync_inv_def)
  from Resync_acquire_inv[OF a this]
  have i: "resync_inv (int (length raw)) s"
    and t: "resync_siz s = 0 \<or> (\<exists>q. sync_train_in raw q)" by simp_all
  from i r show "72 dvd n" "0 \<le> n" "length raw' = length raw"
    by (simp_all add: resync_inv_def)
  from i r have "n = 0 \<or> n < int (length raw)"
    by (auto simp: resync_inv_def)
  with t r show "n = 0 \<or> (n < int (length raw) \<and> (\<exists>q. sync_train_in raw q))" by auto
qed


text \<open>
  C6. Whenever \<open>Resync_Stream\<close> reports a length, the length is a multiple of 72, and it
  is zero or strictly less than the raw length; it is zero in particular when the
  buffer holds no sync train. This holds for the empty buffer as well.
\<close>

theorem Resync_Stream_length:
  assumes "Resync_Stream raw = Some (raw', n)"
  shows "72 dvd n \<and> 0 \<le> n \<and>
         (n = 0 \<or> (n < int (length raw) \<and> (\<exists>q. sync_train_in raw q)))"
  using Resync_Stream_props(1,2,4)[OF assms] by simp

text \<open>
  Five noise-free frames (sync word \<open>00100111\<close>, then 72 data symbols of value 7), and
  a buffer without sync: 80 symbols below the threshold followed by 320 above it.
\<close>

definition resync_example :: "u8 list" where
  "resync_example = concat (replicate 5 ([0, 0, 0, 200, 200, 0, 200, 200] @ replicate 72 7))"

definition noise_example :: "u8 list" where
  "noise_example = replicate 80 0 @ replicate 320 255"

lemma Resync_Stream_resync_example:
  "Resync_Stream resync_example = Some (replicate 288 7 @ drop 288 resync_example, 288)"
  by code_simp

lemma Resync_Stream_noise_example: "Resync_Stream noise_example = Some (noise_example, 0)"
  by code_simp

text \<open>
  On the five frames the resynchronizer copies the data of the first four: 288 symbols.
\<close>

theorem Resync_Stream_length_witness:
  "Resync_Stream resync_example = Some (replicate 288 7 @ drop 288 resync_example, 288) \<and>
   72 dvd (288 :: int) \<and> 288 < int (length resync_example) \<and>
   (\<exists>q. sync_train_in resync_example q)"
  using Resync_Stream_length[OF Resync_Stream_resync_example] Resync_Stream_resync_example
  by simp

section \<open>Properties of the de-interleaver\<close>

text \<open>
  The de-interleaving loop started on an allocated buffer of \<open>siz\<close> symbols: every store
  is in bounds, and a destination is written exactly when its source index is below
  \<open>siz\<close>.
\<close>

lemma De_Interleave_loop_exit:
  "siz \<le> idx \<Longrightarrow> De_Interleave_loop raw siz idx r = Some r"
  by (subst De_Interleave_loop.simps) simp

lemma De_Interleave_loop_Some:
  assumes "resync = Some buf" "0 \<le> idx" "int (length buf) = siz" "siz \<le> int (length raw)"
  shows "\<exists>out. De_Interleave_loop raw siz idx resync = Some (Some out) \<and>
           length out = length buf \<and>
           (\<forall>i. 0 \<le> i \<and> i < siz \<longrightarrow>
              out ! nat i = (if idx \<le> i \<and> i + (i mod 36) * 73728 < siz
                             then raw ! nat (i + (i mod 36) * 73728) else buf ! nat i))"
  using assms
proof (induction raw siz idx resync arbitrary: buf rule: De_Interleave_loop.induct)
  case (1 raw siz idx resync)
  let ?src = "idx + (idx mod 36) * 73728"
  show ?case
  proof (cases "idx < siz")
    case False
    with "1.prems" show ?thesis
      by (subst De_Interleave_loop.simps) auto
  next
    case True
    have m: "0 \<le> idx mod 36" by simp
    show ?thesis
    proof (cases "?src < siz")
      case inb: True
      let ?buf = "buf[nat idx := raw ! nat ?src]"
      from inb "1.prems" m have rd: "read_u8 raw ?src = Some (raw ! nat ?src)"
        by (simp add: read_u8_def)
      from True "1.prems" have wr: "write_ptr resync idx (raw ! nat ?src) = Some (Some ?buf)"
        by (simp add: write_ptr_def)
      have st: "De_Interleave_loop raw siz idx resync
          = De_Interleave_loop raw siz (idx + 1) (Some ?buf)"
        using True inb rd wr by (subst De_Interleave_loop.simps) (simp add: Let_def)
      from "1.IH"(1)[OF True refl inb rd wr refl] "1.prems"
      obtain out where
        o: "De_Interleave_loop raw siz (idx + 1) (Some ?buf) = Some (Some out)"
          "length out = length ?buf" and
        v: "\<forall>i. 0 \<le> i \<and> i < siz \<longrightarrow>
              out ! nat i = (if idx + 1 \<le> i \<and> i + (i mod 36) * 73728 < siz
                             then raw ! nat (i + (i mod 36) * 73728) else ?buf ! nat i)"
        by auto
      have "out ! nat i = (if idx \<le> i \<and> i + (i mod 36) * 73728 < siz
                             then raw ! nat (i + (i mod 36) * 73728) else buf ! nat i)"
        if i: "0 \<le> i \<and> i < siz" for i
      proof (cases "i = idx")
        case True
        with v[rule_format, OF i] inb i "1.prems" show ?thesis by simp
      next
        case False
        then have "idx + 1 \<le> i \<longleftrightarrow> idx \<le> i" by auto
        moreover from False i "1.prems"(2) have "nat i \<noteq> nat idx" by (simp add: eq_nat_nat_iff)
        ultimately show ?thesis using v[rule_format, OF i] by simp
      qed
      with o st show ?thesis by simp
    next
      case oob: False
      have st: "De_Interleave_loop raw siz idx resync
          = De_Interleave_loop raw siz (idx + 1) resync"
        using True oob by (subst De_Interleave_loop.simps) (simp add: Let_def)
      from "1.IH"(2)[OF True refl oob "1.prems"(1)] "1.prems"
      obtain out where
        o: "De_Interleave_loop raw siz (idx + 1) resync = Some (Some out)"
          "length out = length buf" and
        v: "\<forall>i. 0 \<le> i \<and> i < siz \<longrightarrow>
              out ! nat i = (if idx + 1 \<le> i \<and> i + (i mod 36) * 73728 < siz
                             then raw ! nat (i + (i mod 36) * 73728) else buf ! nat i)"
        by auto
      have "out ! nat i = (if idx \<le> i \<and> i + (i mod 36) * 73728 < siz
                             then raw ! nat (i + (i mod 36) * 73728) else buf ! nat i)"
        if i: "0 \<le> i \<and> i < siz" for i
      proof (cases "i = idx")
        case True
        with v[rule_format, OF i] oob show ?thesis by simp
      next
        case False
        then have "idx + 1 \<le> i \<longleftrightarrow> idx \<le> i" by auto
        then show ?thesis using v[rule_format, OF i] by simp
      qed
      with o st show ?thesis by simp
    qed
  qed
qed


lemma De_Interleave_Some:
  assumes "Resync_Stream raw = Some (raw', n)"
  shows "\<exists>r. De_Interleave fresh resync0 raw = Some r \<and> di_raw r = raw' \<and> di_resync_siz r = n"
proof (cases "n \<noteq> 0 \<and> n < int (length raw)")
  case False
  with Resync_Stream_props(4)[OF assms] have "n = 0" by auto
  with assms show ?thesis
    by (simp add: De_Interleave_def De_Interleave_loop_exit)
next
  case True
  let ?buf = "map fresh [0..<nat n]"
  from True Resync_Stream_props(2,3)[OF assms]
  have "int (length ?buf) = n" "n \<le> int (length raw')" by simp_all
  from De_Interleave_loop_Some[OF refl _ this, of 0]
  obtain out where "De_Interleave_loop raw' n 0 (Some ?buf) = Some (Some out)" by auto
  with True assms show ?thesis
    by (simp add: De_Interleave_def)
qed

text \<open>
  C1. If \<open>Resync_Stream\<close> reports a zero length, or a length that is not strictly below
  the raw length, \<open>De_Interleave\<close> allocates nothing, shows the message
  \<open>Resync_Stream() failed\<close> and runs its loop without a single iteration: the buffer
  \<open>*resync\<close> pointed to on entry is left as it was.
\<close>

theorem De_Interleave_refuses:
  assumes "Resync_Stream raw = Some (raw', n)" "n = 0 \<or> int (length raw) \<le> n"
  shows "De_Interleave fresh resync0 raw =
           Some \<lparr>di_raw = raw', di_resync = resync0, di_resync_siz = n,
                 di_message = Some (''Resync_Stream() failed'', ''red'')\<rparr> \<and>
         De_Interleave_loop raw' n 0 resync0 = Some resync0"
proof -
  from Resync_Stream_props(4)[OF assms(1)] assms(2) have n: "n = 0" by auto
  then have "De_Interleave_loop raw' n 0 resync0 = Some resync0"
    by (simp add: De_Interleave_loop_exit)
  with n assms(1) show ?thesis
    by (simp add: De_Interleave_def)
qed

text \<open>
  The buffer without sync: the resynchronizer reports 0 and the de-interleaver only
  shows the message.
\<close>

theorem De_Interleave_refuses_witness:
  "Resync_Stream noise_example = Some (noise_example, 0) \<and>
   De_Interleave (\<lambda>_. 0) (Some [1, 2, 3]) noise_example =
     Some \<lparr>di_raw = noise_example, di_resync = Some [1, 2, 3], di_resync_siz = 0,
           di_message = Some (''Resync_Stream() failed'', ''red'')\<rparr> \<and>
   De_Interleave_loop noise_example 0 0 (Some [1, 2, 3]) = Some (Some [1, 2, 3])"
  using De_Interleave_refuses[OF Resync_Stream_noise_example, of "\<lambda>_. 0" "Some [1, 2, 3]"]
    Resync_Stream_noise_example
  by simp

text \<open>
  C7. With 36 branches and base length 73728, every destination index \<open>i\<close> below the
  output length holds the resynchronized symbol at \<open>i + (i mod 36) * 73728\<close> when that
  index is below the length, and is left as \<open>mem_alloc\<close> returned it otherwise (0 for
  an allocator that clears the block).
\<close>

theorem De_Interleave_permutation:
  assumes "De_Interleave fresh resync0 raw = Some r" "0 \<le> i" "i < di_resync_siz r"
  shows "Resync_Stream raw = Some (di_raw r, di_resync_siz r) \<and>
         (\<exists>out. di_resync r = Some out \<and> int (length out) = di_resync_siz r \<and>
            out ! nat i = (if i + (i mod 36) * 73728 < di_resync_siz r
                           then di_raw r ! nat (i + (i mod 36) * 73728)
                           else fresh (nat i)))"
proof -
  from assms(1) obtain raw' n where rs: "Resync_Stream raw = Some (raw', n)"
    by (cases "Resync_Stream raw") (auto simp: De_Interleave_def)
  from De_Interleave_Some[OF rs, of fresh resync0] assms(1)
  have r: "di_raw r = raw'" "di_resync_siz r = n" by auto
  with assms(2,3) have n: "0 < n" by simp
  with Resync_Stream_props(3,4)[OF rs] have l: "n < int (length raw)" "n \<le> int (length raw')"
    by auto
  let ?buf = "map fresh [0..<nat n]"
  from n have "int (length ?buf) = n" by simp
  from De_Interleave_loop_Some[OF refl _ this l(2), of 0]
  obtain out where
    o: "De_Interleave_loop raw' n 0 (Some ?buf) = Some (Some out)" "length out = length ?buf" and
    v: "\<forall>i. 0 \<le> i \<and> i < n \<longrightarrow>
          out ! nat i = (if 0 \<le> i \<and> i + (i mod 36) * 73728 < n
                         then raw' ! nat (i + (i mod 36) * 73728) else ?buf ! nat i)"
    by auto
  from rs n l(1) o(1) assms(1) have d: "di_resync r = Some out"
    by (auto simp: De_Interleave_def)
  from assms(2,3) r have "nat i < nat n" by simp
  then have "?buf ! nat i = fresh (nat i)" by simp
  with v[rule_format, of i] assms(2,3) r
  have "out ! nat i = (if i + (i mod 36) * 73728 < n
                         then raw' ! nat (i + (i mod 36) * 73728) else fresh (nat i))"
    by simp
  with d o(2) n r rs show ?thesis by simp
qed

text \<open>
  On the five frames with a clearing allocator: destination 36 is filled from source
  36, destination 1 has its source out of range and stays 0.
\<close>

theorem De_Interleave_permutation_witness:
  "\<exists>r out. De_Interleave (\<lambda>_. 0) None resync_example = Some r \<and> di_resync_siz r = 288 \<and>
     di_resync r = Some out \<and> length out = 288 \<and> out ! 36 = 7 \<and> out ! 1 = 0"
proof -
  from De_Interleave_Some[OF Resync_Stream_resync_example, of "\<lambda>_. 0" None]
  obtain r where
    r: "De_Interleave (\<lambda>_. 0) None resync_example = Some r"
      "di_raw r = replicate 288 7 @ drop 288 resync_example" "di_resync_siz r = 288"
    by auto
  from De_Interleave_permutation[OF r(1), of 36] r(2,3)
  obtain out where o: "di_resync r = Some out" "length out = 288" "out ! 36 = 7"
    by (auto simp: nth_append)
  from De_Interleave_permutation[OF r(1), of 1] r(2,3) o(1)
  have "out ! 1 = 0" by auto
  with r o show ?thesis by blast
qed

section \<open>The table lookup away from the last entry\<close>

text \<open>
  For every \<open>|a| < 16384\<close> the table entry is at most 127 and \<open>Isqrt\<close> is the truncated
  sign-preserving square root; at \<open>a = -16384\<close> the result is \<open>-128\<close> as well, since the
  negation of \<open>-128\<close> does not fit \<open>int8_t\<close>.
\<close>

lemma sint_small_nat: "k < 128 \<Longrightarrow> sint (word_of_nat k :: u8) = int k"
  by (simp add: signed_of_nat signed_take_bit_int_eq_self)

lemma sint_neg_small_nat:
  assumes "k < 128"
  shows "sint (- word_of_nat k :: u8) = - int k"
proof -
  have "sint (word_of_int (- int k) :: u8) = signed_take_bit (LENGTH(8) - 1) (- int k)"
    by (rule sint_sbintrunc')
  also have "\<dots> = - int k"
    using assms by (simp add: signed_take_bit_int_eq_self)
  finally show ?thesis by simp
qed

lemma Isqrt_table_value:
  assumes "\<bar>a\<bar> < 16384"
  shows "\<exists>w. Isqrt Make_Isqrt_Table a = Some w \<and>
           sint w = (if 0 \<le> a then \<lfloor>sqrt (real_of_int a)\<rfloor> else - \<lfloor>sqrt (real_of_int (- a))\<rfloor>)"
proof (cases "0 \<le> a")
  case True
  let ?k = "sqrt_trunc (nat a)"
  from True assms have n: "nat a < 16384" by simp
  from True assms have i: "Isqrt Make_Isqrt_Table a = Some (word_of_nat ?k)"
    by (simp add: Isqrt_table_nonneg)
  have "int ?k = \<lfloor>sqrt (real (nat a))\<rfloor>" by (rule sqrt_trunc_real)
  with True have r: "int ?k = \<lfloor>sqrt (real_of_int a)\<rfloor>" by simp
  have "sint (word_of_nat ?k :: u8) = int ?k"
    by (rule sint_small_nat[OF sqrt_trunc_lt_128[OF n]])
  with r have "sint (word_of_nat ?k :: u8) = \<lfloor>sqrt (real_of_int a)\<rfloor>" by (simp only:)
  with i True show ?thesis by (simp only: if_True) blast
next
  case False
  let ?k = "sqrt_trunc (nat (- a))"
  from False assms have n: "nat (- a) < 16384" by simp
  have s1: "sint (word_of_nat ?k :: u8) = int ?k"
    by (rule sint_small_nat[OF sqrt_trunc_lt_128[OF n]])
  from False assms have "Isqrt Make_Isqrt_Table a
      = Some (word_of_int (- sint (word_of_nat ?k :: u8)))"
    by (simp add: Isqrt_table_neg)
  then have i: "Isqrt Make_Isqrt_Table a = Some (- word_of_nat ?k)"
    by (simp add: s1)
  have "int ?k = \<lfloor>sqrt (real (nat (- a)))\<rfloor>" by (rule sqrt_trunc_real)
  with False have r: "int ?k = \<lfloor>sqrt (real_of_int (- a))\<rfloor>" by simp
  have "sint (- word_of_nat ?k :: u8) = - int ?k"
    by (rule sint_neg_small_nat[OF sqrt_trunc_lt_128[OF n]])
  with r have "sint (- word_of_nat ?k :: u8) = - \<lfloor>sqrt (real_of_int (- a))\<rfloor>" by (simp only:)
  with i False show ?thesis by (simp only: if_False) blast
qed

lemma Isqrt_minus_16384:
  "Isqrt Make_Isqrt_Table (- 16384) = Some (- 128)"
proof -
  have "sqrt_trunc 16384 = 128" by (rule sqrt_trunc_unique) simp_all
  then show ?thesis by (simp add: Isqrt_def read_Make_Isqrt_Table)
qed

end
